theory Spec2Isabelle
  imports Complex_Main "HOL-Library.Sublist"
begin

section \<open>Strings\<close>

text \<open>
  A JavaScript string is a sequence of UTF-16 code units. A \<^typ>\<open>char\<close> stands for one code
  unit in the range 0 to 255, so \<^term>\<open>length s\<close> is the \<^verbatim>\<open>.length\<close> of the source.
  JavaScript numbers that hold integers are modelled as \<^typ>\<open>int\<close>. The model is exact on
  the safe integers, those of absolute value below \<open>2 ^ 53\<close>: there a number of the source
  holds the integer itself and prints all its digits. Beyond them the source rounds a parsed
  integer to the nearest double (to \<^verbatim>\<open>Infinity\<close> from about 309 digits on) and prints in
  exponent form from \<open>10 ^ 21\<close> on, which the model does not do; every statement about a
  parsed number that is not fixed by the pattern to one or two digits is therefore made for
  safe integers only.
\<close>

definition code :: "char \<Rightarrow> nat" where
  "code c = of_char c"

definition isDigit :: "char \<Rightarrow> bool" where
  \<comment> \<open>\<^verbatim>\<open>\d\<close>\<close>
  "isDigit c = (c \<in> set ''0123456789'')"

definition isUpper :: "char \<Rightarrow> bool" where
  \<comment> \<open>\<^verbatim>\<open>[A-Z]\<close>\<close>
  "isUpper c = (c \<in> set ''ABCDEFGHIJKLMNOPQRSTUVWXYZ'')"

definition isLower :: "char \<Rightarrow> bool" where
  \<comment> \<open>\<^verbatim>\<open>[a-z]\<close>\<close>
  "isLower c = (c \<in> set ''abcdefghijklmnopqrstuvwxyz'')"

definition isSpace :: "char \<Rightarrow> bool" where
  \<comment> \<open>\<^verbatim>\<open>\s\<close>, and what \<^verbatim>\<open>trim\<close> strips: TAB, LF, VT, FF, CR, SP and NBSP are the
      white space and line terminators below code unit 256\<close>
  "isSpace c = (c \<in> set [CHR 0x09, CHR 0x0A, CHR 0x0B, CHR 0x0C, CHR 0x0D, CHR 0x20, CHR 0xA0])"

definition isWord :: "char \<Rightarrow> bool" where
  \<comment> \<open>\<^verbatim>\<open>\w\<close>\<close>
  "isWord c = (isUpper c \<or> isLower c \<or> isDigit c \<or> c = CHR ''_'')"

definition canonicalize :: "char \<Rightarrow> char" where
  \<comment> \<open>The case folding of a pattern with the \<^verbatim>\<open>i\<close> flag. Every pattern character of this
      program is ASCII, and without the \<^verbatim>\<open>u\<close> flag no code unit from 128 on folds to an
      ASCII one, so only the folding of \<^verbatim>\<open>a-z\<close> can change a match.\<close>
  "canonicalize c =
     (case map_of (zip ''abcdefghijklmnopqrstuvwxyz'' ''ABCDEFGHIJKLMNOPQRSTUVWXYZ'') c of
        Some u \<Rightarrow> u
      | None \<Rightarrow> c)"

definition toUpperCase :: "string \<Rightarrow> string" where
  \<comment> \<open>Applied by the source to matched track names only, which are ASCII.\<close>
  "toUpperCase s = map canonicalize s"

definition lowerChar :: "char \<Rightarrow> char" where
  "lowerChar c =
     (if isUpper c \<or> (192 \<le> code c \<and> code c \<le> 222 \<and> code c \<noteq> 215)
      then char_of (code c + 32) else c)"

definition toLowerCase :: "string \<Rightarrow> string" where
  "toLowerCase s = map lowerChar s"

definition trim :: "string \<Rightarrow> string" where
  "trim s = rev (dropWhile isSpace (rev (dropWhile isSpace s)))"

fun splitOn :: "char \<Rightarrow> string \<Rightarrow> string list" where
  \<comment> \<open>\<^verbatim>\<open>s.split(sep)\<close> for a one-character separator\<close>
  "splitOn sep [] = [[]]"
| "splitOn sep (c # cs) =
     (if c = sep then [] # splitOn sep cs
      else (case splitOn sep cs of
              w # ws \<Rightarrow> (c # w) # ws
            | [] \<Rightarrow> [[c]]))"

definition digitVal :: "char \<Rightarrow> int" where
  "digitVal c = int (code c) - 48"

definition decimal :: "string \<Rightarrow> int" where
  "decimal ds = foldl (\<lambda>a c. 10 * a + digitVal c) 0 ds"

definition isHexDigit :: "char \<Rightarrow> bool" where
  "isHexDigit c = (isDigit c \<or> (65 \<le> code c \<and> code c \<le> 70) \<or> (97 \<le> code c \<and> code c \<le> 102))"

definition hexVal :: "char \<Rightarrow> int" where
  "hexVal c = (if isDigit c then digitVal c
               else if isUpper c then int (code c) - 55 else int (code c) - 87)"

definition parseInt :: "string \<Rightarrow> int option" where
  \<comment> \<open>\<^verbatim>\<open>parseInt(s)\<close> with no radix; \<^term>\<open>None\<close> is \<^verbatim>\<open>NaN\<close>. The value is the integer the
      digits denote: it is the value of the source when that integer is safe, and not beyond
      (the source has the nearest double there).\<close>
  "parseInt s =
     (let t = dropWhile isSpace s;
          neg = (t \<noteq> [] \<and> hd t = CHR ''-'');
          u = (if t \<noteq> [] \<and> (hd t = CHR ''-'' \<or> hd t = CHR ''+'') then tl t else t);
          hex = (take 2 u = ''0x'' \<or> take 2 u = ''0X'');
          ds = (if hex then takeWhile isHexDigit (drop 2 u) else takeWhile isDigit u);
          v = (if hex then foldl (\<lambda>a c. 16 * a + hexVal c) 0 ds else decimal ds)
      in if ds = [] then None else Some (if neg then - v else v))"

fun digitsOf :: "nat \<Rightarrow> string" where
  "digitsOf n = (if n < 10 then [char_of (48 + n)] else digitsOf (n div 10) @ [char_of (48 + n mod 10)])"

declare digitsOf.simps [simp del]

definition numberToString :: "int \<Rightarrow> string" where
  \<comment> \<open>the text a template literal puts for a safe integer: all its digits\<close>
  "numberToString n = (if n < 0 then CHR ''-'' # digitsOf (nat (- n)) else digitsOf (nat n))"

section \<open>Regular expressions\<close>

text \<open>
  The patterns of the source are kept as data and run by a backtracking matcher that follows
  the matcher of the language standard: alternatives are tried left to right, a greedy
  quantifier tries one more iteration before it tries to stop, a lazy one the other way
  round, an iteration of a quantifier whose minimum is reached must consume input, and the
  groups inside a quantified atom are cleared at the start of each iteration.
\<close>

type_synonym caps = "nat \<Rightarrow> string option"

datatype regex =
    Atom "char \<Rightarrow> bool"
  | Eps
  | Bol
  | Eol
  | Seq regex regex
  | Alt regex regex
  | Grp nat regex
  | Rep bool nat "nat option" regex

fun groups :: "regex \<Rightarrow> nat list" where
  "groups (Atom P) = []"
| "groups Eps = []"
| "groups Bol = []"
| "groups Eol = []"
| "groups (Seq a b) = groups a @ groups b"
| "groups (Alt a b) = groups a @ groups b"
| "groups (Grp k r) = k # groups r"
| "groups (Rep g mn mx r) = groups r"

fun reset :: "nat list \<Rightarrow> caps \<Rightarrow> caps" where
  "reset [] c = c"
| "reset (k # ks) c = reset ks (c(k := None))"

fun rsize :: "regex \<Rightarrow> nat" where
  "rsize (Atom P) = 1"
| "rsize Eps = 1"
| "rsize Bol = 1"
| "rsize Eol = 1"
| "rsize (Seq a b) = Suc (rsize a + rsize b)"
| "rsize (Alt a b) = Suc (rsize a + rsize b)"
| "rsize (Grp k r) = Suc (rsize r)"
| "rsize (Rep g mn mx r) = Suc (rsize r)"

text \<open>
  \<open>matches n r s c\<close> lists, in the order in which backtracking reaches them, the ways in which
  \<open>r\<close> can match a prefix of \<open>s\<close>: what is left of \<open>s\<close>, and the groups. \<open>s\<close> is a suffix of the
  subject string, whose length is \<open>n\<close>, and \<open>c\<close> holds the groups set so far.
\<close>

function matches :: "nat \<Rightarrow> regex \<Rightarrow> string \<Rightarrow> caps \<Rightarrow> (string \<times> caps) list" where
  "matches n (Atom P) s c = (case s of [] \<Rightarrow> [] | x # xs \<Rightarrow> if P x then [(xs, c)] else [])"
| "matches n Eps s c = [(s, c)]"
| "matches n Bol s c = (if length s = n then [(s, c)] else [])"
| "matches n Eol s c = (if s = [] then [(s, c)] else [])"
| "matches n (Seq a b) s c = concat (map (\<lambda>y. matches n b (fst y) (snd y)) (matches n a s c))"
| "matches n (Alt a b) s c = matches n a s c @ matches n b s c"
| "matches n (Grp k r) s c =
     map (\<lambda>y. (fst y, (snd y)(k := Some (take (length s - length (fst y)) s)))) (matches n r s c)"
| "matches n (Rep g mn mx r) s c =
     (if mx = Some 0 then [(s, c)]
      else let again = concat (map (\<lambda>y. if mn = 0 \<and> length (fst y) = length s then []
                                          else matches n (Rep g (mn - 1) (map_option (\<lambda>k. k - 1) mx) r)
                                                 (fst y) (snd y))
                                   (matches n r s (reset (groups r) c)))
           in if mn \<noteq> 0 then again
              else if g then again @ [(s, c)]
              else (s, c) # again)"
  by pat_completeness auto

lemma matches_dom_length:
  "matches_dom (n, r, s, c) \<Longrightarrow> y \<in> set (matches n r s c) \<Longrightarrow> length (fst y) \<le> length s"
proof (induction n r s c arbitrary: y rule: matches.pinduct)
  case (1 n P s c)
  then show ?case by (auto simp: matches.psimps split: list.splits if_splits)
next
  case (2 n s c)
  then show ?case by (auto simp: matches.psimps)
next
  case (3 n s c)
  then show ?case by (auto simp: matches.psimps split: if_splits)
next
  case (4 n s c)
  then show ?case by (auto simp: matches.psimps split: if_splits)
next
  case (5 n a b s c)
  from 5(4) 5(1) obtain z where z: "z \<in> set (matches n a s c)" "y \<in> set (matches n b (fst z) (snd z))"
    by (auto simp: matches.psimps)
  from 5(2)[OF z(1)] have "length (fst z) \<le> length s" .
  moreover from 5(3)[OF z(1) z(2)] have "length (fst y) \<le> length (fst z)" .
  ultimately show ?case by simp
next
  case (6 n a b s c)
  from 6(4) 6(1) have "y \<in> set (matches n a s c) \<or> y \<in> set (matches n b s c)"
    by (simp add: matches.psimps)
  with 6(2,3) show ?case by blast
next
  case (7 n k r s c)
  from 7(3) 7(1) obtain z where "z \<in> set (matches n r s c)" "fst y = fst z"
    by (auto simp: matches.psimps)
  with 7(2) show ?case by simp
next
  case (8 n g mn mx r s c)
  show ?case
  proof (cases "mx = Some 0")
    case True
    with 8(1,4) show ?thesis by (simp add: matches.psimps)
  next
    case False
    let ?again = "concat (map (\<lambda>y. if mn = 0 \<and> length (fst y) = length s then []
                                    else matches n (Rep g (mn - 1) (map_option (\<lambda>k. k - 1) mx) r)
                                           (fst y) (snd y))
                             (matches n r s (reset (groups r) c)))"
    from 8(4) 8(1) False have "y \<in> set ?again \<or> y = (s, c)"
      by (auto simp: matches.psimps Let_def split: if_splits)
    then show ?thesis
    proof
      assume "y = (s, c)"
      then show ?thesis by simp
    next
      assume "y \<in> set ?again"
      then obtain z where z: "z \<in> set (matches n r s (reset (groups r) c))"
         "\<not> (mn = 0 \<and> length (fst z) = length s)"
         "y \<in> set (matches n (Rep g (mn - 1) (map_option (\<lambda>k. k - 1) mx) r) (fst z) (snd z))"
        by (auto split: if_splits)
      from 8(2)[OF False z(1)] have "length (fst z) \<le> length s" .
      moreover from 8(3)[OF False z(1) z(2) z(3)] have "length (fst y) \<le> length (fst z)" .
      ultimately show ?thesis by simp
    qed
  qed
qed

termination matches
proof (relation "inv_image (less_than <*lex*> less_than)
         (\<lambda>(n, r, s, c). (rsize r, length s + (case r of Rep g mn mx r' \<Rightarrow> mn | _ \<Rightarrow> 0)))",
       goal_cases)
  case 1
  show ?case by (intro wf_inv_image wf_lex_prod wf_less_than)
next
  case (2 n a b s c)
  show ?case by simp
next
  case (3 n a b s c x)
  show ?case by (simp split: prod.splits)
next
  case (4 n a b s c)
  show ?case by simp
next
  case (5 n a b s c)
  show ?case by simp
next
  case (6 n k r s c)
  show ?case by simp
next
  case (7 n g mn mx r s c)
  show ?case by simp
next
  case (8 n g mn mx r s c y)
  then have "length (fst y) \<le> length s"
    using matches_dom_length by blast
  with 8 show ?case by (cases y) auto
qed

declare matches.simps(8) [simp del]

text \<open>
  \<^verbatim>\<open>s.match(r)\<close> and \<^verbatim>\<open>r.test(s)\<close> for a pattern without the \<^verbatim>\<open>g\<close> flag: the match is tried
  at index 0, 1, ... up to the length of \<open>s\<close>, and the first index with a match gives the result.
\<close>

record rmatch =
  m_index :: nat
  m_text :: string
  m_group :: caps

fun exec_from :: "nat \<Rightarrow> regex \<Rightarrow> string \<Rightarrow> rmatch option" where
  "exec_from n r [] =
     (case matches n r [] (\<lambda>k. None) of
        y # ys \<Rightarrow> Some \<lparr>m_index = n, m_text = [], m_group = snd y\<rparr>
      | [] \<Rightarrow> None)"
| "exec_from n r (x # xs) =
     (case matches n r (x # xs) (\<lambda>k. None) of
        y # ys \<Rightarrow> Some \<lparr>m_index = n - length (x # xs),
                        m_text = take (length (x # xs) - length (fst y)) (x # xs),
                        m_group = snd y\<rparr>
      | [] \<Rightarrow> exec_from n r xs)"

definition exec :: "regex \<Rightarrow> string \<Rightarrow> rmatch option" where
  "exec r s = exec_from (length s) r s"

definition test :: "regex \<Rightarrow> string \<Rightarrow> bool" where
  "test r s = (exec r s \<noteq> None)"

subsection \<open>Pattern syntax\<close>

abbreviation Opt :: "regex \<Rightarrow> regex" where
  "Opt r \<equiv> Rep True 0 (Some 1) r"

abbreviation Star :: "regex \<Rightarrow> regex" where
  "Star r \<equiv> Rep True 0 None r"

abbreviation Plus :: "regex \<Rightarrow> regex" where
  "Plus r \<equiv> Rep True 1 None r"

abbreviation PlusLazy :: "regex \<Rightarrow> regex" where
  "PlusLazy r \<equiv> Rep False 1 None r"

abbreviation Times :: "nat \<Rightarrow> nat \<Rightarrow> regex \<Rightarrow> regex" where
  "Times mn mx r \<equiv> Rep True mn (Some mx) r"

definition chr :: "char \<Rightarrow> regex" where
  "chr a = Atom (\<lambda>x. x = a)"

definition chr_i :: "char \<Rightarrow> regex" where
  "chr_i a = Atom (\<lambda>x. canonicalize x = canonicalize a)"

fun seqs :: "regex list \<Rightarrow> regex" where
  "seqs [] = Eps"
| "seqs [r] = r"
| "seqs (r # rs) = Seq r (seqs rs)"

fun alts :: "regex list \<Rightarrow> regex" where
  "alts [] = Eps"
| "alts [r] = r"
| "alts (r # rs) = Alt r (alts rs)"

definition str :: "string \<Rightarrow> regex" where
  "str s = seqs (map chr s)"

definition str_i :: "string \<Rightarrow> regex" where
  "str_i s = seqs (map chr_i s)"

section \<open>Data model\<close>

text \<open>
  A \<open>number\<close> is what \<^verbatim>\<open>parseInt\<close> returns: an integer, or \<^verbatim>\<open>NaN\<close> (\<^term>\<open>None\<close>).
\<close>

type_synonym number = "int option"

datatype surface = Dirt | Turf | Synthetic

record horse =
  horse_id :: string
  horse_number :: number
  horse_name :: string
  horse_jockey :: string
  horse_trainer :: string
  horse_weight :: int
  horse_odds :: "string option"
  horse_speedFigures :: "(string \<times> int) list"
  horse_pastPerformances :: "string list"

record race =
  race_id :: string
  race_number :: number
  race_track :: string
  race_date :: string
  race_distance :: "string option"
  race_surface :: "surface option"
  race_purse :: "int option"
  race_horses :: "horse list"

record raceCard =
  card_track :: string
  card_date :: string
  card_races :: "race list"

text \<open>
  The calendar is outside the program. \<open>today\<close> is the value of
  \<^verbatim>\<open>new Date().toISOString().split('T')[0]\<close>, taken to be the same throughout one call;
  \<open>isoDate s\<close> is that of \<^verbatim>\<open>new Date(s).toISOString().split('T')[0]\<close>, and \<^term>\<open>None\<close>
  when \<^verbatim>\<open>new Date(s)\<close> is not a valid date.
\<close>

record calendar =
  today :: string
  isoDate :: "string \<Rightarrow> string option"

section \<open>Field extractors\<close>

definition group :: "rmatch \<Rightarrow> nat \<Rightarrow> string option" where
  \<comment> \<open>\<^verbatim>\<open>match[k]\<close>; \<^term>\<open>None\<close> is \<^verbatim>\<open>undefined\<close>\<close>
  "group m k = m_group m k"

definition distancePattern :: regex where
  \<comment> \<open>\<^verbatim>\<open>/(\d+(?:\.\d+)?\s*(?:furlongs?|miles?|f|m))/i\<close>\<close>
  "distancePattern =
     Grp 1 (seqs [Plus (Atom isDigit),
                  Opt (Seq (chr CHR ''.'') (Plus (Atom isDigit))),
                  Star (Atom isSpace),
                  alts [Seq (str_i ''furlong'') (Opt (chr_i CHR ''s'')),
                        Seq (str_i ''mile'') (Opt (chr_i CHR ''s'')),
                        chr_i CHR ''f'',
                        chr_i CHR ''m'']])"

definition extractDistance :: "string \<Rightarrow> string option" where
  "extractDistance text = (case exec distancePattern text of None \<Rightarrow> None | Some m \<Rightarrow> group m 1)"

definition extractSurface :: "string \<Rightarrow> surface option" where
  "extractSurface text =
     (if test (Alt (str_i ''turf'') (str_i ''grass'')) text then Some Turf
      else if test (Alt (str_i ''synthetic'') (str_i ''poly'')) text then Some Synthetic
      else if test (Alt (str_i ''dirt'') (str_i ''main'')) text then Some Dirt
      else None)"

definition isPurseChar :: "char \<Rightarrow> bool" where
  \<comment> \<open>\<^verbatim>\<open>[\d,]\<close>\<close>
  "isPurseChar x = (isDigit x \<or> x = CHR '','')"

definition pursePattern :: regex where
  \<comment> \<open>\<^verbatim>\<open>/\$?([\d,]+)/\<close>\<close>
  "pursePattern = Seq (Opt (chr CHR ''$'')) (Grp 1 (Plus (Atom isPurseChar)))"

definition extractPurse :: "string \<Rightarrow> int option" where
  \<comment> \<open>Group 1 takes part in every match of the pattern.\<close>
  "extractPurse text =
     (case exec pursePattern text of
        None \<Rightarrow> None
      | Some m \<Rightarrow>
          (case group m 1 of
             None \<Rightarrow> None
           | Some g \<Rightarrow>
               (case parseInt (filter (\<lambda>x. x \<noteq> CHR '','') g) of
                  None \<Rightarrow> None
                | Some amount \<Rightarrow> if amount > 1000 then Some amount else None)))"

definition trackPatterns :: "regex list" where
  "trackPatterns =
     [str_i ''SANTA ANITA'', str_i ''GULFSTREAM'', str_i ''CHURCHILL DOWNS'', str_i ''BELMONT'',
      str_i ''SARATOGA'', str_i ''KEENELAND'', str_i ''OAKLAWN'', str_i ''FAIR GROUNDS'',
      str_i ''AQUEDUCT'', str_i ''WOODBINE'']"

fun firstTrack :: "regex list \<Rightarrow> string \<Rightarrow> string option" where
  "firstTrack [] text = None"
| "firstTrack (pattern # rest) text =
     (case exec pattern text of
        Some m \<Rightarrow> Some (toUpperCase (m_text m))
      | None \<Rightarrow> firstTrack rest text)"

definition extractTrack :: "string \<Rightarrow> string option" where
  "extractTrack text = firstTrack trackPatterns text"

definition datePatterns :: "regex list" where
  \<comment> \<open>\<^verbatim>\<open>/(\w+\s+\d{1,2},\s+\d{4})/\<close>, \<^verbatim>\<open>/(\d{1,2}\/\d{1,2}\/\d{4})/\<close>, \<^verbatim>\<open>/(\d{4}-\d{2}-\d{2})/\<close>\<close>
  "datePatterns =
     [Grp 1 (seqs [Plus (Atom isWord), Plus (Atom isSpace), Times 1 2 (Atom isDigit),
                   chr CHR '','', Plus (Atom isSpace), Times 4 4 (Atom isDigit)]),
      Grp 1 (seqs [Times 1 2 (Atom isDigit), chr CHR ''/'', Times 1 2 (Atom isDigit),
                   chr CHR ''/'', Times 4 4 (Atom isDigit)]),
      Grp 1 (seqs [Times 4 4 (Atom isDigit), chr CHR ''-'', Times 2 2 (Atom isDigit),
                   chr CHR ''-'', Times 2 2 (Atom isDigit)])]"

fun firstDate :: "calendar \<Rightarrow> regex list \<Rightarrow> string \<Rightarrow> string option" where
  \<comment> \<open>Group 1 takes part in every match of each pattern.\<close>
  "firstDate cal [] text = None"
| "firstDate cal (pattern # rest) text =
     (case exec pattern text of
        None \<Rightarrow> firstDate cal rest text
      | Some m \<Rightarrow>
          (case group m 1 of
             None \<Rightarrow> firstDate cal rest text
           | Some dateStr \<Rightarrow>
               (case isoDate cal dateStr of
                  Some d \<Rightarrow> Some d
                | None \<Rightarrow> firstDate cal rest text)))"

definition extractDate :: "calendar \<Rightarrow> string \<Rightarrow> string option" where
  "extractDate cal text = firstDate cal datePatterns text"

definition isNameChar :: "char \<Rightarrow> bool" where
  \<comment> \<open>\<^verbatim>\<open>[A-Z\s']\<close> under the \<^verbatim>\<open>i\<close> flag\<close>
  "isNameChar x = (isUpper (canonicalize x) \<or> isSpace x \<or> x = CHR 0x27)"

definition oddsPattern :: regex where
  \<comment> \<open>\<^verbatim>\<open>\d+-\d+|\d+\/\d+\<close>\<close>
  "oddsPattern =
     Alt (seqs [Plus (Atom isDigit), chr CHR ''-'', Plus (Atom isDigit)])
         (seqs [Plus (Atom isDigit), chr CHR ''/'', Plus (Atom isDigit)])"

definition horsePattern :: regex where
  \<comment> \<open>\<^verbatim>\<open>/^(\d{1,2})\.?\s+([A-Z\s']+?)\s*(?:\(([^)]+)\))?\s*(?:(\d+-\d+|\d+\/\d+))?\s*$/i\<close>\<close>
  "horsePattern =
     seqs [Bol,
           Grp 1 (Times 1 2 (Atom isDigit)),
           Opt (chr CHR ''.''),
           Plus (Atom isSpace),
           Grp 2 (PlusLazy (Atom isNameChar)),
           Star (Atom isSpace),
           Opt (seqs [chr CHR ''('', Grp 3 (Plus (Atom (\<lambda>x. x \<noteq> CHR '')''))), chr CHR '')'']),
           Star (Atom isSpace),
           Opt (Grp 4 oddsPattern),
           Star (Atom isSpace),
           Eol]"

definition orUnknown :: "string option \<Rightarrow> string" where
  \<comment> \<open>\<^verbatim>\<open>jockey?.trim() || 'Unknown'\<close>\<close>
  "orUnknown j = (case j of None \<Rightarrow> ''Unknown''
                  | Some t \<Rightarrow> if trim t = [] then ''Unknown'' else trim t)"

definition extractHorseFromLine :: "string \<Rightarrow> horse option" where
  \<comment> \<open>Groups 1 and 2 take part in every match of the pattern.\<close>
  "extractHorseFromLine line =
     (case exec horsePattern line of
        None \<Rightarrow> None
      | Some m \<Rightarrow>
          (case (group m 1, group m 2) of
             (Some numberStr, Some name) \<Rightarrow>
               Some \<lparr>horse_id = ''horse-'' @ numberStr,
                     horse_number = parseInt numberStr,
                     horse_name = trim name,
                     horse_jockey = orUnknown (group m 3),
                     horse_trainer = ''Unknown'',
                     horse_weight = 120,
                     horse_odds = map_option trim (group m 4),
                     horse_speedFigures = [],
                     horse_pastPerformances = []\<rparr>
           | _ \<Rightarrow> None))"

section \<open>Race assembler\<close>

definition raceHeaderRegex :: regex where
  \<comment> \<open>\<^verbatim>\<open>/(?:RACE\s+(\d+)|(\d+)(?:st|nd|rd|th)?\s+RACE)/i\<close>\<close>
  "raceHeaderRegex =
     Alt (seqs [str_i ''RACE'', Plus (Atom isSpace), Grp 1 (Plus (Atom isDigit))])
         (seqs [Grp 2 (Plus (Atom isDigit)),
                Opt (alts [str_i ''st'', str_i ''nd'', str_i ''rd'', str_i ''th'']),
                Plus (Atom isSpace),
                str_i ''RACE''])"

definition orElse :: "string option \<Rightarrow> string option \<Rightarrow> string option" where
  \<comment> \<open>\<^verbatim>\<open>a || b\<close> on strings that may be undefined\<close>
  "orElse a b = (case a of None \<Rightarrow> b | Some g \<Rightarrow> if g = [] then b else Some g)"

definition parseIntOpt :: "string option \<Rightarrow> number" where
  \<comment> \<open>\<^verbatim>\<open>parseInt(undefined)\<close> is \<^verbatim>\<open>NaN\<close>\<close>
  "parseIntOpt a = (case a of None \<Rightarrow> None | Some g \<Rightarrow> parseInt g)"

definition raceMatch :: "string \<Rightarrow> number option" where
  \<comment> \<open>\<^verbatim>\<open>line.match(raceHeaderRegex)\<close>, with the race number read off the match\<close>
  "raceMatch line =
     (case exec raceHeaderRegex line of
        None \<Rightarrow> None
      | Some m \<Rightarrow> Some (parseIntOpt (orElse (group m 1) (group m 2))))"

definition showNumber :: "number \<Rightarrow> string" where
  "showNumber v = (case v of None \<Rightarrow> ''NaN'' | Some k \<Rightarrow> numberToString k)"

definition newRace :: "string \<Rightarrow> number \<Rightarrow> race" where
  "newRace day raceNumber =
     \<lparr>race_id = ''race-'' @ showNumber raceNumber,
      race_number = raceNumber,
      race_track = ''Unknown'',
      race_date = day,
      race_distance = None,
      race_surface = None,
      race_purse = None,
      race_horses = []\<rparr>"

definition conditions :: "string \<Rightarrow> race \<Rightarrow> race" where
  \<comment> \<open>the body of the inner loop: a truthy result overwrites the field\<close>
  "conditions conditionLine r =
     (let r1 = (case extractDistance conditionLine of
                  Some d \<Rightarrow> if d \<noteq> [] then r\<lparr>race_distance := Some d\<rparr> else r
                | None \<Rightarrow> r);
          r2 = (case extractSurface conditionLine of
                  Some sf \<Rightarrow> r1\<lparr>race_surface := Some sf\<rparr>
                | None \<Rightarrow> r1)
      in (case extractPurse conditionLine of
            Some p \<Rightarrow> if p \<noteq> 0 then r2\<lparr>race_purse := Some p\<rparr> else r2
          | None \<Rightarrow> r2))"

record assembler =
  races :: "race list"
  currentRace :: "race option"
  currentHorses :: "horse list"

definition flush :: "assembler \<Rightarrow> race list" where
  \<comment> \<open>\<^verbatim>\<open>if (currentRace && currentHorses.length > 0) races.push({...currentRace, horses: currentHorses})\<close>\<close>
  "flush st =
     (case currentRace st of
        Some r \<Rightarrow> if length (currentHorses st) > 0
                  then races st @ [r\<lparr>race_horses := currentHorses st\<rparr>]
                  else races st
      | None \<Rightarrow> races st)"

definition step :: "string \<Rightarrow> string \<Rightarrow> string list \<Rightarrow> assembler \<Rightarrow> assembler" where
  \<comment> \<open>the body of the outer loop at \<open>line = lines[i]\<close>; \<open>window\<close> holds the \<open>lines[j]\<close> of the inner
      loop, in order\<close>
  "step day line window st =
     (case raceMatch line of
        Some raceNumber \<Rightarrow>
          \<lparr>races = flush st,
           currentRace = Some (foldl (\<lambda>r conditionLine. conditions conditionLine r)
                                     (newRace day raceNumber) window),
           currentHorses = []\<rparr>
      | None \<Rightarrow>
          (case currentRace st of
             Some r \<Rightarrow>
               (case extractHorseFromLine line of
                  Some h \<Rightarrow> st\<lparr>currentHorses := currentHorses st @ [h]\<rparr>
                | None \<Rightarrow> st)
           | None \<Rightarrow> st))"

definition lookahead :: "string list \<Rightarrow> nat \<Rightarrow> string list" where
  \<comment> \<open>\<open>lines[j]\<close> for \<open>j = i + 1, ..., Math.min(i + 5, lines.length) - 1\<close>\<close>
  "lookahead lines i = map (\<lambda>j. lines ! j) [i + 1 ..< min (i + 5) (length lines)]"

function loop :: "string \<Rightarrow> string list \<Rightarrow> nat \<Rightarrow> assembler \<Rightarrow> assembler" where
  \<comment> \<open>\<^verbatim>\<open>for (let i = 0; i < lines.length; i++)\<close>, from \<open>i\<close> on\<close>
  "loop day lines i st =
     (if i < length lines
      then loop day lines (i + 1) (step day (lines ! i) (lookahead lines i) st)
      else st)"
  by pat_completeness auto
termination loop
  by (relation "measure (\<lambda>(day, lines, i, st). length lines - i)") auto

declare loop.simps [simp del]

definition textLines :: "string \<Rightarrow> string list" where
  \<comment> \<open>\<^verbatim>\<open>text.split('\n').map(line => line.trim()).filter(line => line.length > 0)\<close>\<close>
  "textLines text = filter (\<lambda>line. length line > 0) (map trim (splitOn (CHR 0x0A) text))"

definition extractRaces :: "string \<Rightarrow> string \<Rightarrow> race list" where
  "extractRaces day text =
     flush (loop day (textLines text) 0 \<lparr>races = [], currentRace = None, currentHorses = []\<rparr>)"

definition parseRaceData :: "calendar \<Rightarrow> string \<Rightarrow> raceCard" where
  \<comment> \<open>No helper raises on a string, so the \<^verbatim>\<open>catch\<close> branch is not reached.\<close>
  "parseRaceData cal text =
     (let rs = extractRaces (today cal) text;
          track = extractTrack text;
          date = extractDate cal text
      in \<lparr>card_track = (case track of Some t \<Rightarrow> if t \<noteq> [] then t else ''Unknown Track''
                                      | None \<Rightarrow> ''Unknown Track''),
          card_date = (case date of Some d \<Rightarrow> if d \<noteq> [] then d else today cal
                                    | None \<Rightarrow> today cal),
          card_races = rs\<rparr>)"

section \<open>Document parser\<close>

text \<open>
  The file system, the PDF text layer and the two recognition engines are outside the program.
  A call to one of them returns a value or throws; what is thrown is an \<^verbatim>\<open>Error\<close> with its
  message, or some other value. Logging is not modelled.
\<close>

datatype thrown = Error string | Other

type_synonym 'a outcome = "thrown + 'a"

record externals =
  readFile :: "string \<Rightarrow> string outcome"
  pdfParse :: "string \<Rightarrow> string outcome"
  visionClient :: bool
  textDetection :: "string \<Rightarrow> (string option list) option outcome"
  createWorker :: "unit outcome"
  sharpToFile :: "string \<Rightarrow> string \<Rightarrow> unit outcome"
  loadLanguage :: "unit outcome"
  initialize :: "unit outcome"
  recognize :: "string \<Rightarrow> (string \<times> real) outcome"
  terminate :: "unit outcome"
  calendarOf :: calendar

record ocrResult =
  ocr_success :: bool
  ocr_text :: string
  ocr_confidence :: real
  ocr_extractedData :: "raceCard option"
  ocr_errors :: "string list option"

definition bind :: "'a outcome \<Rightarrow> ('a \<Rightarrow> 'b outcome) \<Rightarrow> 'b outcome" where
  \<comment> \<open>\<^verbatim>\<open>await\<close>: a throw ends the rest of the block\<close>
  "bind x f = (case x of Inl e \<Rightarrow> Inl e | Inr v \<Rightarrow> f v)"

definition processPDF :: "externals \<Rightarrow> string \<Rightarrow> ocrResult outcome" where
  \<comment> \<open>\<open>pdfParse\<close> gives \<^verbatim>\<open>pdfData.text\<close>; the \<^verbatim>\<open>catch\<close> of the source logs and throws again\<close>
  "processPDF ext filePath =
     bind (readFile ext filePath) (\<lambda>dataBuffer.
     bind (pdfParse ext dataBuffer) (\<lambda>pdfText.
       if pdfText \<noteq> [] \<and> length pdfText > 100
       then Inr \<lparr>ocr_success = True, ocr_text = pdfText, ocr_confidence = 0.9,
                 ocr_extractedData = Some (parseRaceData (calendarOf ext) pdfText), ocr_errors = None\<rparr>
       else Inr \<lparr>ocr_success = True, ocr_text = pdfText, ocr_confidence = 0.5,
                 ocr_extractedData = Some (parseRaceData (calendarOf ext) pdfText), ocr_errors = None\<rparr>))"

definition calculateGoogleVisionConfidence :: "string option list \<Rightarrow> real" where
  "calculateGoogleVisionConfidence detections = (if length detections > 1 then 0.85 else 0.7)"

definition processWithGoogleVision :: "externals \<Rightarrow> string \<Rightarrow> ocrResult outcome" where
  \<comment> \<open>\<open>textDetection\<close> gives \<^verbatim>\<open>result.textAnnotations\<close>: absent, or the \<^verbatim>\<open>description\<close> of each
      annotation\<close>
  "processWithGoogleVision ext filePath =
     bind (textDetection ext filePath) (\<lambda>detections.
       case detections of
         None \<Rightarrow> Inl (Error ''No text detected in image'')
       | Some [] \<Rightarrow> Inl (Error ''No text detected in image'')
       | Some (d # ds) \<Rightarrow>
           (let t = (case d of Some description \<Rightarrow> description | None \<Rightarrow> [])
            in Inr \<lparr>ocr_success = True, ocr_text = t,
                     ocr_confidence = calculateGoogleVisionConfidence (d # ds),
                     ocr_extractedData = Some (parseRaceData (calendarOf ext) t), ocr_errors = None\<rparr>))"

definition extensionPattern :: regex where
  \<comment> \<open>\<^verbatim>\<open>/\.[^/.]+$/\<close>\<close>
  "extensionPattern =
     seqs [chr CHR ''.'', Plus (Atom (\<lambda>x. x \<noteq> CHR ''/'' \<and> x \<noteq> CHR ''.'')), Eol]"

definition replaceFirst :: "regex \<Rightarrow> string \<Rightarrow> string \<Rightarrow> string" where
  \<comment> \<open>\<^verbatim>\<open>s.replace(r, t)\<close> for a pattern without the \<^verbatim>\<open>g\<close> flag and a text without \<^verbatim>\<open>$\<close>\<close>
  "replaceFirst r t s =
     (case exec r s of
        None \<Rightarrow> s
      | Some m \<Rightarrow> take (m_index m) s @ t @ drop (m_index m + length (m_text m)) s)"

definition preprocessImage :: "externals \<Rightarrow> string \<Rightarrow> string outcome" where
  "preprocessImage ext filePath =
     (let outputPath = replaceFirst extensionPattern ''_processed.png'' filePath
      in bind (sharpToFile ext filePath outputPath) (\<lambda>u. Inr outputPath))"

definition tryFinally :: "'a outcome \<Rightarrow> unit outcome \<Rightarrow> 'a outcome" where
  \<comment> \<open>\<^verbatim>\<open>try { body } finally { await cleanup }\<close>: a throw of the cleanup replaces the outcome\<close>
  "tryFinally body cleanup = (case cleanup of Inl e \<Rightarrow> Inl e | Inr u \<Rightarrow> body)"

definition processWithTesseract :: "externals \<Rightarrow> string \<Rightarrow> ocrResult outcome" where
  \<comment> \<open>\<open>recognize\<close> gives \<^verbatim>\<open>data.text\<close> and \<^verbatim>\<open>data.confidence\<close>\<close>
  "processWithTesseract ext filePath =
     bind (createWorker ext) (\<lambda>worker.
       tryFinally
         (bind (preprocessImage ext filePath) (\<lambda>processedImagePath.
          bind (loadLanguage ext) (\<lambda>u1.
          bind (initialize ext) (\<lambda>u2.
          bind (recognize ext processedImagePath) (\<lambda>data.
            Inr \<lparr>ocr_success = True, ocr_text = fst data, ocr_confidence = snd data / 100,
                  ocr_extractedData = Some (parseRaceData (calendarOf ext) (fst data)),
                  ocr_errors = None\<rparr>)))))
         (terminate ext))"

definition processImage :: "externals \<Rightarrow> string \<Rightarrow> ocrResult outcome" where
  "processImage ext filePath =
     (if visionClient ext then processWithGoogleVision ext filePath
      else processWithTesseract ext filePath)"

definition fileExtensionOf :: "string \<Rightarrow> string" where
  \<comment> \<open>\<^verbatim>\<open>fileName.toLowerCase().split('.').pop()\<close>\<close>
  "fileExtensionOf fileName = last (splitOn CHR ''.'' (toLowerCase fileName))"

definition dispatch :: "externals \<Rightarrow> string \<Rightarrow> string \<Rightarrow> ocrResult outcome" where
  \<comment> \<open>the \<^verbatim>\<open>try\<close> block of \<^verbatim>\<open>processFile\<close>\<close>
  "dispatch ext filePath fileName =
     (let fileExtension = fileExtensionOf fileName
      in if fileExtension = ''pdf'' then processPDF ext filePath
         else if fileExtension = ''jpg'' \<or> fileExtension = ''jpeg'' \<or> fileExtension = ''png''
         then processImage ext filePath
         else Inl (Error (''Unsupported file type: '' @ fileExtension)))"

definition failure :: "thrown \<Rightarrow> ocrResult" where
  \<comment> \<open>the value the \<^verbatim>\<open>catch\<close> block of \<^verbatim>\<open>processFile\<close> returns\<close>
  "failure e =
     \<lparr>ocr_success = False, ocr_text = [], ocr_confidence = 0, ocr_extractedData = None,
      ocr_errors = Some [case e of Error message \<Rightarrow> message | Other \<Rightarrow> ''Unknown error'']\<rparr>"

definition processFile :: "externals \<Rightarrow> string \<Rightarrow> string \<Rightarrow> ocrResult outcome" where
  "processFile ext filePath fileName =
     (case dispatch ext filePath fileName of
        Inl e \<Rightarrow> Inr (failure e)
      | Inr result \<Rightarrow> Inr result)"

section \<open>Notions used in the statements\<close>

text \<open>
  \<^verbatim>\<open>Number.isSafeInteger\<close>: the integers that a number of the source holds exactly, so that
  \<^verbatim>\<open>parseInt\<close> on their digits returns the integer itself.
\<close>

definition safeInteger :: "int \<Rightarrow> bool" where
  "safeInteger v = (- (2 ^ 53) < v \<and> v < 2 ^ 53)"

text \<open>
  The digit group of a line, in the words of the specification: the first maximal run of
  digits and thousands separators of the line (a currency symbol before it changes nothing),
  and the integer it denotes once the separators are removed.
\<close>

definition digitGroup_spec :: "string \<Rightarrow> string option" where
  "digitGroup_spec line =
     (case dropWhile (\<lambda>x. \<not> isPurseChar x) line of
        [] \<Rightarrow> None
      | x # xs \<Rightarrow> Some (takeWhile isPurseChar (x # xs)))"

definition purseAmount_spec :: "string \<Rightarrow> int option" where
  "purseAmount_spec line =
     (case digitGroup_spec line of
        None \<Rightarrow> None
      | Some g \<Rightarrow> (let ds = filter (\<lambda>x. x \<noteq> CHR '','') g
                   in if ds = [] then None else Some (decimal ds)))"

definition somes :: "'a option list \<Rightarrow> 'a list" where
  "somes xs = concat (map (\<lambda>x. case x of Some v \<Rightarrow> [v] | None \<Rightarrow> []) xs)"

definition headerNumbers :: "string list \<Rightarrow> int list" where
  \<comment> \<open>the race numbers of the race-boundary lines, in the order of the lines\<close>
  "headerNumbers ls = somes (map (\<lambda>v. case v of Some k \<Rightarrow> k | None \<Rightarrow> None) (map raceMatch ls))"

definition raceNumbers :: "race list \<Rightarrow> int list" where
  "raceNumbers rs = somes (map race_number rs)"

text \<open>
  A parenthesized group starts where an opening parenthesis is followed by at least one
  character other than a closing parenthesis and then by a closing parenthesis. An odds
  token has a digit, a dash or a slash, and a digit in a row.
\<close>

definition parenGroupAt :: "string \<Rightarrow> bool" where
  "parenGroupAt t =
     (case t of
        [] \<Rightarrow> False
      | c # r \<Rightarrow> c = CHR ''('' \<and> takeWhile (\<lambda>x. x \<noteq> CHR '')'') r \<noteq> []
                 \<and> dropWhile (\<lambda>x. x \<noteq> CHR '')'') r \<noteq> [])"

definition hasParenGroup :: "string \<Rightarrow> bool" where
  "hasParenGroup line = list_ex parenGroupAt (suffixes line)"

definition oddsTokenAt :: "string \<Rightarrow> bool" where
  "oddsTokenAt t =
     (case t of
        a # b # c # r \<Rightarrow> isDigit a \<and> (b = CHR ''-'' \<or> b = CHR ''/'') \<and> isDigit c
      | _ \<Rightarrow> False)"

definition hasOddsToken :: "string \<Rightarrow> bool" where
  "hasOddsToken line = list_ex oddsTokenAt (suffixes line)"

text \<open>A line that is neither a race-boundary line nor a horse entry.\<close>

definition quiet :: "string \<Rightarrow> bool" where
  "quiet line = (raceMatch line = None \<and> extractHorseFromLine line = None)"

section \<open>Notions used in the proofs\<close>

abbreviation idle :: assembler where
  "idle \<equiv> \<lparr>races = [], currentRace = None, currentHorses = []\<rparr>"

fun scan :: "string \<Rightarrow> string list \<Rightarrow> assembler \<Rightarrow> assembler" where
  \<comment> \<open>the outer loop as a recursion over the lines that are left\<close>
  "scan day [] st = st"
| "scan day (line # rest) st = scan day rest (step day line (take 4 rest) st)"

definition manned :: "race list \<Rightarrow> bool" where
  "manned rs = list_all (\<lambda>r. race_horses r \<noteq> []) rs"

definition opened :: "assembler \<Rightarrow> number list" where
  \<comment> \<open>the numbers of the races emitted so far and of the open race\<close>
  "opened st = map race_number (races st)
               @ (case currentRace st of Some r \<Rightarrow> [race_number r] | None \<Rightarrow> [])"

definition headers :: "string list \<Rightarrow> number list" where
  "headers ls = concat (map (\<lambda>line. case raceMatch line of Some n \<Rightarrow> [n] | None \<Rightarrow> []) ls)"

definition horseHead :: regex where
  \<comment> \<open>the part of \<open>horsePattern\<close> before the jockey\<close>
  "horseHead = seqs [Bol,
           Grp 1 (Times 1 2 (Atom isDigit)),
           Opt (chr CHR ''.''),
           Plus (Atom isSpace),
           Grp 2 (PlusLazy (Atom isNameChar)),
           Star (Atom isSpace)]"

definition horseParen :: regex where
  \<comment> \<open>the jockey in parentheses\<close>
  "horseParen = seqs [chr CHR ''('', Grp 3 (Plus (Atom (\<lambda>x. x \<noteq> CHR '')''))), chr CHR '')'']"

definition horseTail :: regex where
  \<comment> \<open>the part of \<open>horsePattern\<close> after the number\<close>
  "horseTail = seqs [Opt (chr CHR ''.''),
           Plus (Atom isSpace),
           Grp 2 (PlusLazy (Atom isNameChar)),
           Star (Atom isSpace),
           Opt (seqs [chr CHR ''('', Grp 3 (Plus (Atom (\<lambda>x. x \<noteq> CHR '')''))), chr CHR '')'']),
           Star (Atom isSpace),
           Opt (Grp 4 oddsPattern),
           Star (Atom isSpace),
           Eol]"

section \<open>Sample inputs\<close>

definition nl :: string where
  "nl = [CHR 0x0A]"

definition sampleExternals :: externals where
  "sampleExternals =
     \<lparr>readFile = (\<lambda>p. if p = ''/tmp/card.pdf'' then Inr ''%PDF'' else Inl (Error ''ENOENT'')),
      pdfParse = (\<lambda>b. Inr (replicate 150 CHR ''x'')),
      visionClient = False,
      textDetection = (\<lambda>p. Inr None),
      createWorker = Inr (),
      sharpToFile = (\<lambda>p q. Inr ()),
      loadLanguage = Inr (),
      initialize = Inr (),
      recognize = (\<lambda>p. Inl Other),
      terminate = Inr (),
      calendarOf = \<lparr>today = ''2024-03-15'', isoDate = (\<lambda>s. None)\<rparr>\<rparr>"

definition e2e_text :: string where
  "e2e_text = ''SANTA ANITA'' @ nl @ ''March 15, 2024'' @ nl @ ''RACE 1'' @ nl @
     ''6 Furlongs Dirt Purse $40,000'' @ nl @ ''1. MIDNIGHT RUN (J. Smith) 5-1'' @ nl @
     ''2. SOLAR FLARE (A. Lee) 3-1'' @ nl @ ''RACE 2''"

definition e2e_calendar :: calendar where
  "e2e_calendar = \<lparr>today = ''2024-06-01'',
                    isoDate = (\<lambda>s. if s = ''March 15, 2024'' then Some ''2024-03-15'' else None)\<rparr>"

definition midnightRun :: horse where
  "midnightRun = \<lparr>horse_id = ''horse-1'', horse_number = Some 1,
           horse_name = ''MIDNIGHT RUN'', horse_jockey = ''J. Smith'',
           horse_trainer = ''Unknown'', horse_weight = 120,
           horse_odds = Some ''5-1'', horse_speedFigures = [],
           horse_pastPerformances = []\<rparr>"

definition solarFlare :: horse where
  "solarFlare = \<lparr>horse_id = ''horse-2'', horse_number = Some 2,
           horse_name = ''SOLAR FLARE'', horse_jockey = ''A. Lee'',
           horse_trainer = ''Unknown'', horse_weight = 120,
           horse_odds = Some ''3-1'', horse_speedFigures = [],
           horse_pastPerformances = []\<rparr>"

definition unorderedText :: string where
  "unorderedText = ''RACE 2'' @ nl @ ''1. A'' @ nl @ ''RACE 1'' @ nl @ ''1. B'' @ nl @ ''RACE 2'' @ nl @ ''1. C''"

definition orderedText :: string where
  "orderedText = ''RACE 1'' @ nl @ ''1. A'' @ nl @ ''RACE 3'' @ nl @ ''2. B''"

definition emptyRaceText :: string where
  "emptyRaceText = ''RACE 1'' @ nl @ ''RACE 2'' @ nl @ ''1. A''"

definition orphanText :: string where
  "orphanText = ''3. ORPHAN (J. Doe) 2-1''"

definition bigNumberText :: string where
  "bigNumberText = ''RACE 1'' @ nl @ ''99. BIG RED''"

definition bigRed :: horse where
  "bigRed = \<lparr>horse_id = ''horse-99'', horse_number = Some 99,
     horse_name = ''BIG RED'', horse_jockey = ''Unknown'',
     horse_trainer = ''Unknown'', horse_weight = 120, horse_odds = None,
     horse_speedFigures = [], horse_pastPerformances = []\<rparr>"

definition seabiscuit7 :: horse where
  "seabiscuit7 = \<lparr>horse_id = ''horse-7'', horse_number = Some 7,
     horse_name = ''SEABISCUIT'', horse_jockey = ''Unknown'',
     horse_trainer = ''Unknown'', horse_weight = 120, horse_odds = None,
     horse_speedFigures = [], horse_pastPerformances = []\<rparr>"

section \<open>Properties of the matcher\<close>

lemma in_matches_Rep:
  assumes "y \<in> set (matches n (Rep g mn mx r) s c)"
  shows "y = (s, c) \<and> (mn = 0 \<or> mx = Some 0)
         \<or> mx \<noteq> Some 0 \<and>
           (\<exists>z \<in> set (matches n r s (reset (groups r) c)).
               \<not> (mn = 0 \<and> length (fst z) = length s) \<and>
               y \<in> set (matches n (Rep g (mn - 1) (map_option (\<lambda>k. k - 1) mx) r) (fst z) (snd z)))"
proof (cases "mx = Some 0")
  case True
  then have "matches n (Rep g mn mx r) s c = [(s, c)]"
    by (subst matches.simps(8)) simp
  with assms True show ?thesis by simp
next
  case False
  let ?again = "concat (map (\<lambda>y. if mn = 0 \<and> length (fst y) = length s then []
                                    else matches n (Rep g (mn - 1) (map_option (\<lambda>k. k - 1) mx) r)
                                           (fst y) (snd y))
                             (matches n r s (reset (groups r) c)))"
  from False have "matches n (Rep g mn mx r) s c =
      (if mn \<noteq> 0 then ?again else if g then ?again @ [(s, c)] else (s, c) # ?again)"
    by (subst matches.simps(8)) (simp add: Let_def)
  with assms have "y \<in> set ?again \<or> (y = (s, c) \<and> mn = 0)"
    by (auto split: if_splits)
  then show ?thesis
  proof
    assume "y \<in> set ?again"
    then obtain z where "z \<in> set (matches n r s (reset (groups r) c))"
       "\<not> (mn = 0 \<and> length (fst z) = length s)"
       "y \<in> set (matches n (Rep g (mn - 1) (map_option (\<lambda>k. k - 1) mx) r) (fst z) (snd z))"
      by (auto split: if_splits)
    with False show ?thesis by blast
  next
    assume "y = (s, c) \<and> mn = 0"
    then show ?thesis by simp
  qed
qed

lemma matches_suffix:
  "y \<in> set (matches n r s c) \<Longrightarrow> suffix (fst y) s"
proof (induction n r s c arbitrary: y rule: matches.induct)
  case (1 n P s c)
  then show ?case by (cases s) (auto split: if_splits simp: suffix_Cons)
next
  case (2 n s c)
  then show ?case by simp
next
  case (3 n s c)
  then show ?case by (simp split: if_splits)
next
  case (4 n s c)
  then show ?case by (simp split: if_splits)
next
  case (5 n a b s c)
  from 5(3) obtain z where z: "z \<in> set (matches n a s c)" "y \<in> set (matches n b (fst z) (snd z))"
    by auto
  from 5(2)[OF z(1) z(2)] 5(1)[OF z(1)] show ?case
    by (rule suffix_order.trans)
next
  case (6 n a b s c)
  from 6(3) have "y \<in> set (matches n a s c) \<or> y \<in> set (matches n b s c)" by simp
  with 6(1,2) show ?case by blast
next
  case (7 n k r s c)
  from 7(2) obtain z where "z \<in> set (matches n r s c)" "fst y = fst z" by auto
  with 7(1) show ?case by simp
next
  case (8 n g mn mx r s c)
  from in_matches_Rep[OF 8(3)] show ?case
  proof
    assume "y = (s, c) \<and> (mn = 0 \<or> mx = Some 0)"
    then show ?thesis by simp
  next
    assume a: "mx \<noteq> Some 0 \<and> (\<exists>z \<in> set (matches n r s (reset (groups r) c)).
               \<not> (mn = 0 \<and> length (fst z) = length s) \<and>
               y \<in> set (matches n (Rep g (mn - 1) (map_option (\<lambda>k. k - 1) mx) r) (fst z) (snd z)))"
    then obtain z where z: "z \<in> set (matches n r s (reset (groups r) c))"
      "\<not> (mn = 0 \<and> length (fst z) = length s)"
      "y \<in> set (matches n (Rep g (mn - 1) (map_option (\<lambda>k. k - 1) mx) r) (fst z) (snd z))"
      by blast
    from a have m: "mx \<noteq> Some 0" by simp
    from 8(2)[OF m z(1) z(2) z(3)] 8(1)[OF m z(1)] show ?thesis
      by (rule suffix_order.trans)
  qed
qed

lemma reset_other: "k \<notin> set ks \<Longrightarrow> reset ks c k = c k"
  by (induction ks arbitrary: c) auto

lemma matches_frame:
  "y \<in> set (matches n r s c) \<Longrightarrow> k \<notin> set (groups r) \<Longrightarrow> snd y k = c k"
proof (induction n r s c arbitrary: y rule: matches.induct)
  case (1 n P s c)
  then show ?case by (cases s) (auto split: if_splits)
next
  case (2 n s c)
  then show ?case by simp
next
  case (3 n s c)
  then show ?case by (simp split: if_splits)
next
  case (4 n s c)
  then show ?case by (simp split: if_splits)
next
  case (5 n a b s c)
  from 5(3) obtain z where z: "z \<in> set (matches n a s c)" "y \<in> set (matches n b (fst z) (snd z))"
    by auto
  from 5(4) have k: "k \<notin> set (groups a)" "k \<notin> set (groups b)" by simp_all
  from 5(2)[OF z(1) z(2) k(2)] 5(1)[OF z(1) k(1)] show ?case by simp
next
  case (6 n a b s c)
  from 6(3) have "y \<in> set (matches n a s c) \<or> y \<in> set (matches n b s c)" by simp
  with 6(1,2)[of y] 6(4) show ?case by auto
next
  case (7 n j r s c)
  from 7(2) obtain z where z: "z \<in> set (matches n r s c)"
     "snd y = (snd z)(j := Some (take (length s - length (fst z)) s))" by auto
  from 7(3) have "k \<noteq> j" "k \<notin> set (groups r)" by simp_all
  with 7(1)[OF z(1)] z(2) show ?case by simp
next
  case (8 n g mn mx r s c)
  from 8(4) have k: "k \<notin> set (groups r)" by simp
  from in_matches_Rep[OF 8(3)] show ?case
  proof
    assume "y = (s, c) \<and> (mn = 0 \<or> mx = Some 0)"
    then show ?thesis by simp
  next
    assume a: "mx \<noteq> Some 0 \<and> (\<exists>z \<in> set (matches n r s (reset (groups r) c)).
               \<not> (mn = 0 \<and> length (fst z) = length s) \<and>
               y \<in> set (matches n (Rep g (mn - 1) (map_option (\<lambda>k. k - 1) mx) r) (fst z) (snd z)))"
    then obtain z where z: "z \<in> set (matches n r s (reset (groups r) c))"
      "\<not> (mn = 0 \<and> length (fst z) = length s)"
      "y \<in> set (matches n (Rep g (mn - 1) (map_option (\<lambda>k. k - 1) mx) r) (fst z) (snd z))"
      by blast
    from a have m: "mx \<noteq> Some 0" by simp
    have "snd y k = snd z k"
      using 8(2)[OF m z(1) z(2) z(3)] k by simp
    also have "snd z k = reset (groups r) c k"
      using 8(1)[OF m z(1) k] .
    also have "\<dots> = c k" using k by (rule reset_other)
    finally show ?thesis .
  qed
qed

lemma in_matches_Rep_Atom:
  "y \<in> set (matches n (Rep g mn mx (Atom P)) s c) \<Longrightarrow>
   (case mx of Some m \<Rightarrow> mn \<le> m | None \<Rightarrow> True) \<Longrightarrow>
   snd y = c \<and> (\<exists>u. s = u @ fst y \<and> mn \<le> length u \<and> (case mx of Some m \<Rightarrow> length u \<le> m | None \<Rightarrow> True)
                    \<and> list_all P u)"
proof (induction s arbitrary: mn mx y)
  case Nil
  from in_matches_Rep[OF Nil(1)] Nil(2) show ?case by (auto split: option.splits)
next
  case (Cons x xs)
  from in_matches_Rep[OF Cons.prems(1)] show ?case
  proof
    assume "y = (x # xs, c) \<and> (mn = 0 \<or> mx = Some 0)"
    with Cons.prems(2) show ?thesis by (auto split: option.splits)
  next
    assume a: "mx \<noteq> Some 0 \<and> (\<exists>z \<in> set (matches n (Atom P) (x # xs) (reset (groups (Atom P)) c)).
               \<not> (mn = 0 \<and> length (fst z) = length (x # xs)) \<and>
               y \<in> set (matches n (Rep g (mn - 1) (map_option (\<lambda>k. k - 1) mx) (Atom P)) (fst z) (snd z)))"
    then have px: "P x" and y: "y \<in> set (matches n (Rep g (mn - 1) (map_option (\<lambda>k. k - 1) mx) (Atom P)) xs c)"
      by (auto split: if_splits)
    from a Cons.prems(2) have "case map_option (\<lambda>k. k - 1) mx of Some m \<Rightarrow> mn - 1 \<le> m | None \<Rightarrow> True"
      by (cases mx) auto
    from Cons.IH[OF y this] obtain u where u: "snd y = c" "xs = u @ fst y" "mn - 1 \<le> length u"
       "case map_option (\<lambda>k. k - 1) mx of Some m \<Rightarrow> length u \<le> m | None \<Rightarrow> True" "list_all P u"
      by blast
    from a have "mx \<noteq> Some 0" by simp
    with u(4) have "case mx of Some m \<Rightarrow> length (x # u) \<le> m | None \<Rightarrow> True"
      by (cases mx) auto
    with u px have "snd y = c \<and> x # xs = (x # u) @ fst y \<and> mn \<le> length (x # u)
        \<and> (case mx of Some m \<Rightarrow> length (x # u) \<le> m | None \<Rightarrow> True) \<and> list_all P (x # u)"
      by auto
    then show ?thesis by blast
  qed
qed

lemma in_matches_Grp_Rep_Atom:
  assumes "y \<in> set (matches n (Grp k (Rep g mn mx (Atom P))) s c)"
    and "case mx of Some m \<Rightarrow> mn \<le> m | None \<Rightarrow> True"
  shows "\<exists>u. s = u @ fst y \<and> snd y = c(k := Some u) \<and> mn \<le> length u
             \<and> (case mx of Some m \<Rightarrow> length u \<le> m | None \<Rightarrow> True) \<and> list_all P u"
proof -
  from assms obtain z where z: "z \<in> set (matches n (Rep g mn mx (Atom P)) s c)"
    "y = (fst z, (snd z)(k := Some (take (length s - length (fst z)) s)))"
    by auto
  from in_matches_Rep_Atom[OF z(1) assms(2)] obtain u where u: "snd z = c" "s = u @ fst z" "mn \<le> length u"
    "case mx of Some m \<Rightarrow> length u \<le> m | None \<Rightarrow> True" "list_all P u"
    by blast
  from u(2) have "take (length s - length (fst z)) s = u" by simp
  with z(2) u show ?thesis by auto
qed

lemma in_matches_Seq:
  "y \<in> set (matches n (Seq a b) s c) \<longleftrightarrow>
     (\<exists>z \<in> set (matches n a s c). y \<in> set (matches n b (fst z) (snd z)))"
  by auto

lemma in_matches_chr:
  "y \<in> set (matches n (chr a) s c) \<Longrightarrow> s = a # fst y"
  by (cases s) (auto simp: chr_def split: if_splits)

lemma in_matches_Opt:
  assumes "y \<in> set (matches n (Opt r) s c)" and "matches n r s (reset (groups r) c) = []"
  shows "y = (s, c)"
  using in_matches_Rep[OF assms(1)] assms(2) by auto

lemma concat_map_concat_map:
  "concat (map f (concat (map g xs))) = concat (map (\<lambda>x. concat (map f (g x))) xs)"
  by (induction xs) simp_all

lemma matches_Seq_assoc:
  "matches n (Seq (Seq a b) d) s c = matches n (Seq a (Seq b d)) s c"
  by (simp add: concat_map_concat_map)

lemma matches_seqs_append:
  "xs \<noteq> [] \<Longrightarrow> ys \<noteq> [] \<Longrightarrow>
   matches n (seqs (xs @ ys)) s c = matches n (Seq (seqs xs) (seqs ys)) s c"
proof (induction xs arbitrary: s c rule: seqs.induct)
  case 1
  then show ?case by simp
next
  case (2 r)
  then obtain y ys' where "ys = y # ys'" by (cases ys) auto
  then show ?case by simp
next
  case (3 r v va)
  have "matches n (seqs ((r # v # va) @ ys)) s c
        = concat (map (\<lambda>y. matches n (seqs ((v # va) @ ys)) (fst y) (snd y)) (matches n r s c))"
    by simp
  also have "\<dots> = concat (map (\<lambda>y. matches n (Seq (seqs (v # va)) (seqs ys)) (fst y) (snd y)) (matches n r s c))"
    using 3 by simp
  also have "\<dots> = matches n (Seq r (Seq (seqs (v # va)) (seqs ys))) s c"
    by simp
  also have "\<dots> = matches n (Seq (seqs (r # v # va)) (seqs ys)) s c"
    by (simp only: matches_Seq_assoc seqs.simps)
  finally show ?case .
qed

lemma matches_Star_Atom:
  "\<exists>rest. matches n (Star (Atom P)) s c = (dropWhile P s, c) # rest"
proof (induction s)
  case Nil
  show ?case by (subst matches.simps(8)) simp
next
  case (Cons x xs)
  show ?case
  proof (cases "P x")
    case True
    from Cons obtain rest where r: "matches n (Star (Atom P)) xs c = (dropWhile P xs, c) # rest"
      by blast
    have "matches n (Star (Atom P)) (x # xs) c = matches n (Star (Atom P)) xs c @ [(x # xs, c)]"
      using True by (subst matches.simps(8)) simp
    with r True show ?thesis by simp
  next
    case False
    then have "matches n (Star (Atom P)) (x # xs) c = [(x # xs, c)]"
      by (subst matches.simps(8)) simp
    with False show ?thesis by simp
  qed
qed

lemma matches_Plus_Atom_Nil:
  assumes "s = [] \<or> \<not> P (hd s)"
  shows "matches n (Plus (Atom P)) s c = []"
proof -
  from assms have "matches n (Atom P) s c = []" by (cases s) auto
  then show ?thesis by (subst matches.simps(8)) (simp del: One_nat_def)
qed

lemma matches_Plus_Atom_Cons:
  assumes "P x"
  shows "\<exists>rest. matches n (Plus (Atom P)) (x # xs) c = (dropWhile P (x # xs), c) # rest"
proof -
  have "matches n (Plus (Atom P)) (x # xs) c = matches n (Star (Atom P)) xs c"
    using assms by (subst matches.simps(8)) (simp del: One_nat_def)
  with matches_Star_Atom[of n P xs c] assms show ?thesis by (auto simp del: One_nat_def)
qed

lemma take_dropWhile: "take (length s - length (dropWhile P s)) s = takeWhile P s"
proof -
  have "length s = length (takeWhile P s) + length (dropWhile P s)"
    by (metis length_append takeWhile_dropWhile_id)
  then have "length s - length (dropWhile P s) = length (takeWhile P s)" by simp
  then show ?thesis by (simp add: takeWhile_eq_take[symmetric])
qed

lemma matches_Grp_Plus_Atom_Nil:
  "s = [] \<or> \<not> P (hd s) \<Longrightarrow> matches n (Grp k (Plus (Atom P))) s c = []"
  by (simp add: matches_Plus_Atom_Nil del: One_nat_def)

lemma matches_Grp_Plus_Atom_Cons:
  assumes "P x"
  shows "\<exists>rest. matches n (Grp k (Plus (Atom P))) (x # xs) c
           = (dropWhile P (x # xs), c(k := Some (takeWhile P (x # xs)))) # rest"
proof -
  from matches_Plus_Atom_Cons[of P x n xs c] assms obtain rest where
    "matches n (Plus (Atom P)) (x # xs) c = (dropWhile P (x # xs), c) # rest" by blast
  then have "matches n (Grp k (Plus (Atom P))) (x # xs) c =
      (dropWhile P (x # xs), c(k := Some (take (length (x # xs) - length (dropWhile P (x # xs))) (x # xs))))
      # map (\<lambda>y. (fst y, (snd y)(k := Some (take (length (x # xs) - length (fst y)) (x # xs))))) rest"
    by (simp del: One_nat_def)
  then show ?thesis unfolding take_dropWhile by blast
qed

lemma matches_Opt_chr:
  "matches n (Opt (chr a)) s c = (if s \<noteq> [] \<and> hd s = a then [(tl s, c), (s, c)] else [(s, c)])"
proof -
  have z: "matches n (Times 0 0 (chr a)) t d = [(t, d)]" for t d
    by (subst matches.simps(8)) simp
  show ?thesis
    by (subst matches.simps(8)) (auto simp: chr_def z[unfolded chr_def] split: list.splits simp del: One_nat_def)
qed

lemma exec_from_Some:
  "exec_from n r s = Some m \<Longrightarrow>
   \<exists>t y. suffix t s \<and> y \<in> set (matches n r t (\<lambda>k. None)) \<and> m_group m = snd y
          \<and> m_text m = take (length t - length (fst y)) t \<and> m_index m = n - length t"
proof (induction s)
  case Nil
  then show ?case by (auto split: list.splits)
next
  case (Cons x xs)
  show ?case
  proof (cases "matches n r (x # xs) (\<lambda>k. None)")
    case Nil
    with Cons.prems have "exec_from n r xs = Some m" by simp
    from Cons.IH[OF this] show ?thesis by (auto simp: suffix_Cons)
  next
    case (Cons y ys)
    with Cons.prems have "m_group m = snd y" "m_text m = take (length (x # xs) - length (fst y)) (x # xs)"
       "m_index m = n - length (x # xs)" by auto
    moreover from Cons have "y \<in> set (matches n r (x # xs) (\<lambda>k. None))" by simp
    ultimately show ?thesis by (intro exI[of _ "x # xs"] exI[of _ y]) simp
  qed
qed

lemma exec_Bol:
  assumes "exec (Seq Bol r) s = Some m"
  shows "\<exists>y \<in> set (matches (length s) r s (\<lambda>k. None)). m_group m = snd y"
proof -
  from assms obtain t y where t: "suffix t s" "y \<in> set (matches (length s) (Seq Bol r) t (\<lambda>k. None))"
    "m_group m = snd y"
    unfolding exec_def using exec_from_Some by blast
  from t(2) have "length t = length s" by (auto split: if_splits)
  with t(1) have "t = s"
    by (metis suffix_def length_append add_cancel_right_left add.commute length_0_conv append_Nil)
  with t(2,3) show ?thesis by (auto split: if_splits)
qed

lemma exec_Grp_defined:
  assumes "exec (Grp k r) s = Some m"
  shows "group m k \<noteq> None"
proof -
  from assms obtain t y where "y \<in> set (matches (length s) (Grp k r) t (\<lambda>k. None))" "m_group m = snd y"
    unfolding exec_def using exec_from_Some by blast
  then show ?thesis by (auto simp: group_def)
qed

section \<open>Reading numbers\<close>

lemma isDigit_facts:
  "isDigit x \<Longrightarrow> \<not> isSpace x \<and> x \<noteq> CHR ''-'' \<and> x \<noteq> CHR ''+'' \<and> x \<noteq> CHR ''x'' \<and> x \<noteq> CHR ''X''
      \<and> x \<noteq> CHR '','' \<and> 0 \<le> digitVal x \<and> digitVal x \<le> 9"
  by (auto simp: isDigit_def isSpace_def digitVal_def code_def)

lemma parseInt_digits:
  assumes "ds \<noteq> []" and "list_all isDigit ds"
  shows "parseInt ds = Some (decimal ds)"
proof -
  from assms obtain x xs where ds: "ds = x # xs" by (cases ds) auto
  with assms have x: "isDigit x" and xs: "list_all isDigit xs" by simp_all
  have t: "dropWhile isSpace ds = ds" using ds x isDigit_facts by simp
  have s: "hd ds \<noteq> CHR ''-''" "hd ds \<noteq> CHR ''+''" using ds x isDigit_facts by auto
  have h: "take 2 ds \<noteq> ''0x''" "take 2 ds \<noteq> ''0X''"
    using ds xs isDigit_facts by (cases xs; auto)+
  have w: "takeWhile isDigit ds = ds" using assms(2) by (simp add: list_all_iff)
  show ?thesis
    unfolding parseInt_def Let_def t by (simp only: s h w assms(1) if_False simp_thms)
qed

lemma decimal_two_digits:
  assumes "ds \<noteq> []" "length ds \<le> 2" "list_all isDigit ds"
  shows "0 \<le> decimal ds \<and> decimal ds \<le> 99"
proof -
  from assms(1,2) consider a where "ds = [a]" | a b where "ds = [a, b]"
    by (cases ds; cases "tl ds"; auto)
  then show ?thesis
  proof cases
    case 1
    with assms(3) isDigit_facts[of a] show ?thesis by (simp add: decimal_def)
  next
    case 2
    with assms(3) isDigit_facts[of a] isDigit_facts[of b] show ?thesis by (simp add: decimal_def)
  qed
qed

section \<open>The groups of the patterns\<close>

text \<open>
  The groups the source reads without a test are set by every match, so the branches of the
  model for an absent group are never taken.
\<close>

lemma distance_group_defined: "exec distancePattern s = Some m \<Longrightarrow> group m 1 \<noteq> None"
  unfolding distancePattern_def by (rule exec_Grp_defined)

lemma date_group_defined:
  "pattern \<in> set datePatterns \<Longrightarrow> exec pattern s = Some m \<Longrightarrow> group m 1 \<noteq> None"
  unfolding datePatterns_def by (auto dest: exec_Grp_defined)

lemma horse_group1:
  assumes "exec horsePattern line = Some m"
  shows "\<exists>u. group m 1 = Some u \<and> u \<noteq> [] \<and> length u \<le> 2 \<and> list_all isDigit u"
proof -
  let ?n = "length line"
  have hp: "horsePattern = Seq Bol (Seq (Grp 1 (Times 1 2 (Atom isDigit))) horseTail)"
    by (simp add: horsePattern_def horseTail_def)
  from assms obtain y where y: "y \<in> set (matches ?n (Seq (Grp 1 (Times 1 2 (Atom isDigit))) horseTail) line (\<lambda>k. None))"
    "m_group m = snd y"
    unfolding hp using exec_Bol by blast
  from y(1) obtain z where z: "z \<in> set (matches ?n (Grp 1 (Times 1 2 (Atom isDigit))) line (\<lambda>k. None))"
    "y \<in> set (matches ?n horseTail (fst z) (snd z))"
    unfolding in_matches_Seq by blast
  from in_matches_Grp_Rep_Atom[OF z(1)] obtain u where u: "snd z = (\<lambda>k. None)(1 := Some u)"
    "1 \<le> length u" "length u \<le> 2" "list_all isDigit u"
    by auto
  have "1 \<notin> set (groups horseTail)"
    by (simp add: horseTail_def oddsPattern_def chr_def)
  from matches_frame[OF z(2) this] u(1) y(2) have "group m 1 = Some u"
    by (simp add: group_def)
  with u show ?thesis by auto
qed

lemma horse_group2:
  assumes "exec horsePattern line = Some m"
  shows "group m 2 \<noteq> None"
proof -
  let ?n = "length line"
  let ?c0 = "\<lambda>k::nat. None :: string option"
  let ?rest = "seqs [Star (Atom isSpace),
           Opt (seqs [chr CHR ''('', Grp 3 (Plus (Atom (\<lambda>x. x \<noteq> CHR '')''))), chr CHR '')'']),
           Star (Atom isSpace),
           Opt (Grp 4 oddsPattern),
           Star (Atom isSpace),
           Eol]"
  from assms obtain t y where t: "y \<in> set (matches ?n horsePattern t ?c0)" "m_group m = snd y"
    unfolding exec_def using exec_from_Some by blast
  have hp: "horsePattern = Seq Bol (Seq (Grp 1 (Times 1 2 (Atom isDigit))) (Seq (Opt (chr CHR ''.''))
              (Seq (Plus (Atom isSpace)) (Seq (Grp 2 (PlusLazy (Atom isNameChar))) ?rest))))"
    by (simp add: horsePattern_def)
  from t(1) obtain z4 z5 where
    z5: "z5 \<in> set (matches ?n (Grp 2 (PlusLazy (Atom isNameChar))) (fst z4) (snd z4))" and
    y: "y \<in> set (matches ?n ?rest (fst z5) (snd z5))"
    unfolding hp in_matches_Seq by blast
  from z5 have "snd z5 2 \<noteq> None" by auto
  moreover have "2 \<notin> set (groups ?rest)" by (simp add: oddsPattern_def chr_def)
  from matches_frame[OF y this] have "snd y 2 = snd z5 2" .
  ultimately show ?thesis using t(2) by (simp add: group_def)
qed

lemma extractHorseFromLine_matches:
  "extractHorseFromLine line = None \<longleftrightarrow> exec horsePattern line = None"
proof (cases "exec horsePattern line")
  case None
  then show ?thesis by (simp add: extractHorseFromLine_def)
next
  case (Some m)
  from horse_group1[OF Some] horse_group2[OF Some] Some show ?thesis
    by (auto simp: extractHorseFromLine_def split: option.splits)
qed

lemma extractHorseFromLine_number:
  assumes "extractHorseFromLine line = Some h"
  shows "\<exists>v. horse_number h = Some v \<and> 0 \<le> v \<and> v \<le> 99"
proof -
  from assms obtain m numberStr where m: "exec horsePattern line = Some m" "group m 1 = Some numberStr"
    "horse_number h = parseInt numberStr"
    by (auto simp: extractHorseFromLine_def split: option.splits)
  from horse_group1[OF m(1)] m(2) have u: "numberStr \<noteq> []" "length numberStr \<le> 2" "list_all isDigit numberStr"
    by auto
  from parseInt_digits[OF u(1,3)] decimal_two_digits[OF u] m(3) show ?thesis by simp
qed

lemma raceMatch_number:
  assumes "raceMatch line = Some v"
  shows "\<exists>u. u \<noteq> [] \<and> list_all isDigit u \<and> v = Some (decimal u)"
proof -
  let ?n = "length line"
  let ?c0 = "\<lambda>k::nat. None :: string option"
  let ?d = "Plus (Atom isDigit)"
  let ?tail = "seqs [Opt (alts [str_i ''st'', str_i ''nd'', str_i ''rd'', str_i ''th'']),
                Plus (Atom isSpace), str_i ''RACE'']"
  from assms obtain m where m: "exec raceHeaderRegex line = Some m"
    "v = parseIntOpt (orElse (group m 1) (group m 2))"
    by (auto simp: raceMatch_def split: option.splits)
  from m(1) obtain t y where y: "y \<in> set (matches ?n raceHeaderRegex t ?c0)" "m_group m = snd y"
    unfolding exec_def using exec_from_Some by blast
  have rh: "raceHeaderRegex = Alt (Seq (str_i ''RACE'') (Seq (Plus (Atom isSpace)) (Grp 1 ?d)))
                                  (Seq (Grp 2 ?d) ?tail)"
    by (simp add: raceHeaderRegex_def)
  from y(1) have "y \<in> set (matches ?n (Seq (str_i ''RACE'') (Seq (Plus (Atom isSpace)) (Grp 1 ?d))) t ?c0)
                  \<or> y \<in> set (matches ?n (Seq (Grp 2 ?d) ?tail) t ?c0)"
    unfolding rh by simp
  then have "\<exists>u. u \<noteq> [] \<and> list_all isDigit u \<and> orElse (group m 1) (group m 2) = Some u"
  proof
    assume "y \<in> set (matches ?n (Seq (str_i ''RACE'') (Seq (Plus (Atom isSpace)) (Grp 1 ?d))) t ?c0)"
    then obtain z1 z2 where "y \<in> set (matches ?n (Grp 1 ?d) (fst z2) (snd z2))"
      unfolding in_matches_Seq by blast
    from in_matches_Grp_Rep_Atom[OF this] obtain u where "snd y 1 = Some u" "1 \<le> length u" "list_all isDigit u"
      by auto
    with y(2) show ?thesis by (auto simp: orElse_def group_def)
  next
    assume "y \<in> set (matches ?n (Seq (Grp 2 ?d) ?tail) t ?c0)"
    then obtain z where z: "z \<in> set (matches ?n (Grp 2 ?d) t ?c0)" "y \<in> set (matches ?n ?tail (fst z) (snd z))"
      unfolding in_matches_Seq by blast
    from in_matches_Grp_Rep_Atom[OF z(1)] obtain u where u: "snd z = ?c0(2 := Some u)" "1 \<le> length u" "list_all isDigit u"
      by auto
    have "groups ?tail = []" by (simp add: str_i_def chr_i_def)
    with matches_frame[OF z(2), of 1] matches_frame[OF z(2), of 2] u(1)
    have "snd y 1 = None" "snd y 2 = Some u" by simp_all
    with y(2) u show ?thesis by (auto simp: orElse_def group_def)
  qed
  then obtain u where u: "u \<noteq> []" "list_all isDigit u" "orElse (group m 1) (group m 2) = Some u"
    by blast
  with m(2) parseInt_digits[OF u(1,2)] show ?thesis by (auto simp: parseIntOpt_def)
qed

lemma horsePattern_split:
  "matches n horsePattern s c =
   matches n (Seq horseHead (Seq (Opt horseParen)
               (Seq (Star (Atom isSpace)) (Seq (Opt (Grp 4 oddsPattern)) (Seq (Star (Atom isSpace)) Eol))))) s c"
proof -
  have hp: "horsePattern = seqs ([Bol, Grp 1 (Times 1 2 (Atom isDigit)), Opt (chr CHR ''.''),
           Plus (Atom isSpace), Grp 2 (PlusLazy (Atom isNameChar)), Star (Atom isSpace)]
         @ [Opt horseParen, Star (Atom isSpace), Opt (Grp 4 oddsPattern), Star (Atom isSpace), Eol])"
    by (simp add: horsePattern_def horseParen_def)
  show ?thesis
    unfolding hp by (simp only: matches_seqs_append horseHead_def seqs.simps list.distinct not_False_eq_True)
qed

lemma horseParen_shape:
  assumes "y \<in> set (matches n horseParen t c)"
  shows "parenGroupAt t"
proof -
  let ?nc = "\<lambda>x. x \<noteq> CHR '')''"
  from assms obtain w1 w2 where
    w1: "w1 \<in> set (matches n (chr CHR ''('') t c)" and
    w2: "w2 \<in> set (matches n (Grp 3 (Plus (Atom ?nc))) (fst w1) (snd w1))" and
    y: "y \<in> set (matches n (chr CHR '')'') (fst w2) (snd w2))"
    unfolding horseParen_def seqs.simps in_matches_Seq by blast
  from in_matches_chr[OF w1] have t: "t = CHR ''('' # fst w1" .
  from in_matches_Grp_Rep_Atom[OF w2] obtain u where u: "fst w1 = u @ fst w2" "1 \<le> length u" "list_all ?nc u"
    by auto
  from in_matches_chr[OF y] have c: "fst w2 = CHR '')'' # fst y" .
  from u(3) have "takeWhile ?nc (u @ CHR '')'' # fst y) = u" "dropWhile ?nc (u @ CHR '')'' # fst y) = CHR '')'' # fst y"
    by (simp_all add: list_all_iff takeWhile_tail dropWhile_append)
  with t u c show ?thesis by (auto simp: parenGroupAt_def)
qed

lemma digits_gap_digits:
  assumes "u1 \<noteq> []" "list_all isDigit u1" "u2 \<noteq> []" "list_all isDigit u2" "b = CHR ''-'' \<or> b = CHR ''/''"
  shows "\<exists>t'. suffix t' (u1 @ b # u2 @ r) \<and> oddsTokenAt t'"
proof -
  from assms(1) obtain v a where u1: "u1 = v @ [a]" by (cases u1 rule: rev_cases) auto
  from assms(3) obtain d w where u2: "u2 = d # w" by (cases u2) auto
  from u1 u2 assms have "oddsTokenAt (a # b # d # w @ r)"
    by (simp add: oddsTokenAt_def)
  moreover have "suffix (a # b # d # w @ r) (u1 @ b # u2 @ r)"
    unfolding u1 u2 by (simp add: suffix_def)
  ultimately show ?thesis by blast
qed

lemma oddsPattern_shape:
  assumes "y \<in> set (matches n oddsPattern t c)"
  shows "\<exists>t'. suffix t' t \<and> oddsTokenAt t'"
proof -
  let ?d = "Plus (Atom isDigit)"
  have "\<exists>t'. suffix t' t \<and> oddsTokenAt t'"
    if "y \<in> set (matches n (Seq ?d (Seq (chr b) ?d)) t c)" and b: "b = CHR ''-'' \<or> b = CHR ''/''" for b
  proof -
    from that(1) obtain w1 w2 where
      w1: "w1 \<in> set (matches n ?d t c)" and
      w2: "w2 \<in> set (matches n (chr b) (fst w1) (snd w1))" and
      y: "y \<in> set (matches n ?d (fst w2) (snd w2))"
      unfolding in_matches_Seq by blast
    from in_matches_Rep_Atom[OF w1] obtain u1 where u1: "t = u1 @ fst w1" "1 \<le> length u1" "list_all isDigit u1"
      by auto
    from in_matches_chr[OF w2] have g: "fst w1 = b # fst w2" .
    from in_matches_Rep_Atom[OF y] obtain u2 where u2: "fst w2 = u2 @ fst y" "1 \<le> length u2" "list_all isDigit u2"
      by auto
    from u1 u2 have "u1 \<noteq> []" "u2 \<noteq> []" by auto
    from digits_gap_digits[OF this(1) u1(3) this(2) u2(3) b, of "fst y"] u1(1) g u2(1)
    show ?thesis by simp
  qed
  from this[of "CHR ''-''"] this[of "CHR ''/''"] assms show ?thesis
    by (auto simp: oddsPattern_def)
qed

lemma horse_groups34_tokens:
  assumes "exec horsePattern line = Some m"
  shows "(\<not> hasParenGroup line \<longrightarrow> group m 3 = None)
       \<and> (\<not> hasOddsToken line \<longrightarrow> group m 4 = None)"
proof -
  let ?n = "length line"
  let ?c0 = "\<lambda>k::nat. None :: string option"
  let ?sp = "Star (Atom isSpace)"
  let ?odds = "Opt (Grp 4 oddsPattern)"
  from assms obtain t y where t: "suffix t line" "y \<in> set (matches ?n horsePattern t ?c0)"
    "m_group m = snd y"
    unfolding exec_def using exec_from_Some by blast
  from t(2) obtain z1 z2 z3 z4 where
    z1: "z1 \<in> set (matches ?n horseHead t ?c0)" and
    z2: "z2 \<in> set (matches ?n (Opt horseParen) (fst z1) (snd z1))" and
    z3: "z3 \<in> set (matches ?n ?sp (fst z2) (snd z2))" and
    z4: "z4 \<in> set (matches ?n ?odds (fst z3) (snd z3))" and
    y: "y \<in> set (matches ?n (Seq ?sp Eol) (fst z4) (snd z4))"
    unfolding horsePattern_split in_matches_Seq by blast
  have s1: "suffix (fst z1) line"
    using matches_suffix[OF z1] t(1) by (rule suffix_order.trans)
  have s2: "suffix (fst z2) line"
    using matches_suffix[OF z2] s1 by (rule suffix_order.trans)
  have s3: "suffix (fst z3) line"
    using matches_suffix[OF z3] s2 by (rule suffix_order.trans)
  have g1: "snd z1 3 = None" "snd z1 4 = None"
    using matches_frame[OF z1, of 3] matches_frame[OF z1, of 4] by (simp_all add: horseHead_def chr_def)
  have g3: "snd z3 k = snd z2 k" for k
    using matches_frame[OF z3, of k] by simp
  have gy: "snd y k = snd z4 k" for k
    using matches_frame[OF y, of k] by simp
  have a: "group m 3 = None" if "\<not> hasParenGroup line"
  proof -
    have "matches ?n horseParen (fst z1) (reset (groups horseParen) (snd z1)) = []"
    proof (rule ccontr)
      assume "matches ?n horseParen (fst z1) (reset (groups horseParen) (snd z1)) \<noteq> []"
      then obtain w where "w \<in> set (matches ?n horseParen (fst z1) (reset (groups horseParen) (snd z1)))"
        by (cases "matches ?n horseParen (fst z1) (reset (groups horseParen) (snd z1))") auto
      from horseParen_shape[OF this] s1 have "hasParenGroup line"
        by (auto simp: hasParenGroup_def list_ex_iff)
      with that show False by simp
    qed
    from in_matches_Opt[OF z2 this] have "snd z2 = snd z1" by simp
    moreover have "snd z4 3 = snd z3 3"
      using matches_frame[OF z4, of 3] by (simp add: oddsPattern_def chr_def)
    ultimately show ?thesis using g1 g3 gy t(3) by (simp add: group_def)
  qed
  have b: "group m 4 = None" if "\<not> hasOddsToken line"
  proof -
    have "matches ?n (Grp 4 oddsPattern) (fst z3) (reset (groups (Grp 4 oddsPattern)) (snd z3)) = []"
    proof (rule ccontr)
      assume "matches ?n (Grp 4 oddsPattern) (fst z3) (reset (groups (Grp 4 oddsPattern)) (snd z3)) \<noteq> []"
      then obtain w where "w \<in> set (matches ?n oddsPattern (fst z3) (reset (groups (Grp 4 oddsPattern)) (snd z3)))"
        by (cases "matches ?n oddsPattern (fst z3) (reset (groups (Grp 4 oddsPattern)) (snd z3))") auto
      from oddsPattern_shape[OF this] obtain t' where "suffix t' (fst z3)" "oddsTokenAt t'" by blast
      with s3 have "hasOddsToken line"
        by (auto simp: hasOddsToken_def list_ex_iff intro: suffix_order.trans)
      with that show False by simp
    qed
    from in_matches_Opt[OF z4 this] have "snd z4 = snd z3" by simp
    moreover have "snd z2 4 = snd z1 4"
      using matches_frame[OF z2, of 4] by (simp add: horseParen_def chr_def)
    ultimately show ?thesis using g1 g3 gy t(3) by (simp add: group_def)
  qed
  from a b show ?thesis by blast
qed

lemma exec_from_purse:
  "map_option (\<lambda>m. m_group m 1) (exec_from n pursePattern s) = map_option Some (digitGroup_spec s)"
proof (induction s)
  case Nil
  have "matches n pursePattern [] (\<lambda>k. None) = []"
    by (simp add: pursePattern_def matches_Opt_chr matches_Plus_Atom_Nil del: One_nat_def)
  then show ?case by (simp add: digitGroup_spec_def)
next
  case (Cons x xs)
  let ?c0 = "\<lambda>k::nat. None :: string option"
  let ?G = "Grp 1 (Plus (Atom isPurseChar))"
  have nd: "\<not> isPurseChar CHR ''$''" by (simp add: isPurseChar_def isDigit_def)
  show ?case
  proof (cases "isPurseChar x")
    case True
    with nd have "x \<noteq> CHR ''$''" by auto
    then have a: "matches n pursePattern (x # xs) ?c0 = matches n ?G (x # xs) ?c0"
      by (simp add: pursePattern_def matches_Opt_chr del: One_nat_def)
    from matches_Grp_Plus_Atom_Cons[of isPurseChar x n 1 xs ?c0] True obtain rest where
      "matches n ?G (x # xs) ?c0 = (dropWhile isPurseChar (x # xs), ?c0(1 := Some (takeWhile isPurseChar (x # xs)))) # rest"
      by blast
    with a True show ?thesis by (simp add: digitGroup_spec_def del: One_nat_def)
  next
    case False
    then have g0: "matches n ?G (x # xs) d = []" for d
      by (intro matches_Grp_Plus_Atom_Nil) simp
    show ?thesis
    proof (cases "x = CHR ''$'' \<and> xs \<noteq> [] \<and> isPurseChar (hd xs)")
      case True
      then obtain y ys where xs: "xs = y # ys" "isPurseChar y" by (cases xs) auto
      from True g0 have g1: "matches n ?G (CHR ''$'' # xs) d = []" for d by simp
      from True have a: "matches n pursePattern (x # xs) ?c0 = matches n ?G xs ?c0"
        by (simp add: pursePattern_def matches_Opt_chr g1 del: matches.simps(7) One_nat_def)
      from matches_Grp_Plus_Atom_Cons[of isPurseChar y n 1 ys ?c0] xs obtain rest where
        "matches n ?G xs ?c0 = (dropWhile isPurseChar xs, ?c0(1 := Some (takeWhile isPurseChar xs))) # rest"
        by blast
      with a xs False show ?thesis by (simp add: digitGroup_spec_def del: One_nat_def)
    next
      case F: False
      have "matches n pursePattern (x # xs) ?c0 = []"
      proof (cases "x = CHR ''$''")
        case True
        with F have "xs = [] \<or> \<not> isPurseChar (hd xs)" by simp
        then have "matches n ?G xs d = []" for d by (rule matches_Grp_Plus_Atom_Nil)
        moreover from True g0 have "matches n ?G (CHR ''$'' # xs) d = []" for d by simp
        ultimately show ?thesis using True
          by (simp add: pursePattern_def matches_Opt_chr del: matches.simps(7) One_nat_def)
      next
        case False
        then show ?thesis
          by (simp add: pursePattern_def matches_Opt_chr g0 del: matches.simps(7) One_nat_def)
      qed
      then have "exec_from n pursePattern (x # xs) = exec_from n pursePattern xs" by simp
      with Cons False show ?thesis by (simp add: digitGroup_spec_def)
    qed
  qed
qed

lemma purse_group_defined: "exec pursePattern s = Some m \<Longrightarrow> group m 1 \<noteq> None"
  using exec_from_purse[of "length s" s] by (cases "digitGroup_spec s") (auto simp: exec_def group_def)

lemma digitGroup_spec_chars: "digitGroup_spec s = Some g \<Longrightarrow> list_all isPurseChar g"
  by (auto simp: digitGroup_spec_def list_all_iff split: list.splits dest: set_takeWhileD)

section \<open>Lines and the assembler\<close>

lemma lookahead_window: "lookahead ls i = take 4 (drop (Suc i) ls)"
  unfolding lookahead_def
proof (rule nth_equalityI)
  show "length (map (\<lambda>j. ls ! j) [i + 1 ..< min (i + 5) (length ls)]) = length (take 4 (drop (Suc i) ls))"
    by auto
next
  fix k
  assume "k < length (map (\<lambda>j. ls ! j) [i + 1 ..< min (i + 5) (length ls)])"
  then have k: "k < min (i + 5) (length ls) - (i + 1)" by simp
  then have "map (\<lambda>j. ls ! j) [i + 1 ..< min (i + 5) (length ls)] ! k = ls ! (i + 1 + k)"
    by (rule nth_map_upt)
  moreover from k have "take 4 (drop (Suc i) ls) ! k = ls ! (i + 1 + k)"
    by simp
  ultimately show "map (\<lambda>j. ls ! j) [i + 1 ..< min (i + 5) (length ls)] ! k = take 4 (drop (Suc i) ls) ! k"
    by simp
qed

lemma loop_scan: "loop day ls i st = scan day (drop i ls) st"
proof (induction day ls i st rule: loop.induct)
  case (1 day ls i st)
  show ?case
  proof (cases "i < length ls")
    case True
    then have d: "drop i ls = ls ! i # drop (Suc i) ls"
      by (rule Cons_nth_drop_Suc[symmetric])
    have "loop day ls i st = loop day ls (i + 1) (step day (ls ! i) (lookahead ls i) st)"
      using True by (subst loop.simps) simp
    also have "\<dots> = scan day (drop (i + 1) ls) (step day (ls ! i) (lookahead ls i) st)"
      using True by (rule 1)
    also have "\<dots> = scan day (drop i ls) st"
      by (simp add: d lookahead_window)
    finally show ?thesis .
  next
    case False
    then have "loop day ls i st = st"
      by (subst loop.simps) simp
    with False show ?thesis by simp
  qed
qed

lemma extractRaces_scan: "extractRaces day doc = flush (scan day (textLines doc) idle)"
  by (simp add: extractRaces_def loop_scan)

lemma splitOn_not_Nil: "splitOn sep s \<noteq> []"
  by (induction s) (auto split: list.splits)

lemma splitOn_append: "splitOn sep (a @ sep # b) = splitOn sep a @ splitOn sep b"
proof (induction a)
  case Nil
  show ?case by simp
next
  case (Cons c a)
  obtain w ws where w: "splitOn sep a = w # ws"
    using splitOn_not_Nil [of sep a] by (cases "splitOn sep a") auto
  with Cons show ?case by simp
qed

lemma textLines_append: "textLines (a @ CHR 0x0A # b) = textLines a @ textLines b"
  by (simp add: textLines_def splitOn_append)

lemma step_idle:
  "raceMatch line = None \<Longrightarrow> currentRace st = None \<Longrightarrow> step day line window st = st"
  by (simp add: step_def)

lemma scan_orphans:
  "\<forall>line \<in> set pre. raceMatch line = None \<Longrightarrow> currentRace st = None \<Longrightarrow>
   scan day (pre @ ls) st = scan day ls st"
  by (induction pre) (simp_all add: step_idle)

lemma flush_manned: "manned (races st) \<Longrightarrow> manned (flush st)"
  by (auto simp: flush_def manned_def split: option.splits)

lemma step_manned: "manned (races st) \<Longrightarrow> manned (races (step day line window st))"
  by (auto simp: step_def flush_manned split: option.splits)

lemma scan_manned: "manned (races st) \<Longrightarrow> manned (races (scan day ls st))"
  by (induction ls arbitrary: st) (simp_all add: step_manned)

lemma extractRaces_manned: "manned (extractRaces day text)"
  unfolding extractRaces_scan by (intro flush_manned scan_manned) (simp add: manned_def)

lemma conditions_number [simp]: "race_number (conditions l r) = race_number r"
  by (simp add: conditions_def Let_def split: option.splits)

lemma foldl_conditions_number [simp]:
  "race_number (foldl (\<lambda>r l. conditions l r) r ls) = race_number r"
  by (induction ls arbitrary: r) simp_all

lemma flush_opened: "subseq (map race_number (flush st)) (opened st)"
  by (auto simp: flush_def opened_def split: option.splits)

lemma step_opened:
  "subseq (opened (step day line window st))
          (opened st @ (case raceMatch line of Some n \<Rightarrow> [n] | None \<Rightarrow> []))"
proof (cases "raceMatch line")
  case None
  then have "opened (step day line window st) = opened st"
    by (simp add: step_def opened_def split: option.splits)
  with None show ?thesis by simp
next
  case (Some n)
  then have "opened (step day line window st) = map race_number (flush st) @ [n]"
    by (simp add: step_def opened_def newRace_def)
  with Some flush_opened [of st] show ?thesis
    by (simp add: list_emb_append_mono)
qed

lemma scan_opened: "subseq (opened (scan day ls st)) (opened st @ headers ls)"
proof (induction ls arbitrary: st)
  case Nil
  show ?case by (simp add: headers_def)
next
  case (Cons line ls)
  have "subseq (opened (scan day ls (step day line (take 4 ls) st)))
               (opened (step day line (take 4 ls) st) @ headers ls)"
    by (rule Cons.IH)
  also have "subseq (opened (step day line (take 4 ls) st) @ headers ls)
                    ((opened st @ (case raceMatch line of Some n \<Rightarrow> [n] | None \<Rightarrow> [])) @ headers ls)"
    by (intro list_emb_append_mono step_opened) simp
  finally show ?case by (simp add: headers_def)
qed

lemma extractRaces_headers:
  "subseq (map race_number (extractRaces day text)) (headers (textLines text))"
proof -
  have "subseq (map race_number (extractRaces day text)) (opened (scan day (textLines text) idle))"
    unfolding extractRaces_scan by (rule flush_opened)
  also have "subseq (opened (scan day (textLines text) idle)) (opened idle @ headers (textLines text))"
    by (rule scan_opened)
  finally show ?thesis by (simp add: opened_def)
qed

lemma step_quiet: "quiet line \<Longrightarrow> step day line window st = st"
  by (simp add: quiet_def step_def split: option.splits)

lemma scan_quiet: "list_all quiet mid \<Longrightarrow> scan day (mid @ ls) st = scan day ls st"
  by (induction mid) (simp_all add: step_quiet)

lemma empty_race_elided:
  assumes "raceMatch line1 = Some n1" and "list_all quiet mid" and "raceMatch line2 = Some n2"
  shows "races (loop day (line1 # mid @ [line2]) 0 st) = flush st"
proof -
  let ?st1 = "step day line1 (take 4 (mid @ [line2])) st"
  have a: "races ?st1 = flush st" "currentHorses ?st1 = []"
    using assms(1) by (simp_all add: step_def)
  have "loop day (line1 # mid @ [line2]) 0 st = scan day (mid @ [line2]) ?st1"
    by (simp add: loop_scan)
  also have "\<dots> = scan day [line2] ?st1"
    using assms(2) by (rule scan_quiet)
  also have "\<dots> = step day line2 [] ?st1"
    by simp
  finally have "races (loop day (line1 # mid @ [line2]) 0 st) = flush ?st1"
    using assms(3) by (simp add: step_def)
  also have "\<dots> = races ?st1"
    using a(2) by (simp add: flush_def split: option.splits)
  finally show ?thesis using a(1) by simp
qed

lemma subseq_map_Some:
  "subseq xs (map Some ys) \<Longrightarrow> xs = map Some (somes xs) \<and> subseq (somes xs) ys"
proof (induction ys arbitrary: xs)
  case Nil
  then have "xs = []" by (cases xs) auto
  then show ?case by (simp add: somes_def)
next
  case (Cons y ys)
  show ?case
  proof (cases xs)
    case Nil
    then show ?thesis by (simp add: somes_def)
  next
    case (Cons x xs')
    show ?thesis
    proof (cases "x = Some y")
      case True
      with Cons Cons.prems have "subseq xs' (map Some ys)" by (simp add: subseq_Cons2_iff)
      from Cons.IH[OF this] True Cons show ?thesis by (simp add: somes_def)
    next
      case False
      with Cons Cons.prems have "subseq xs (map Some ys)" by (simp add: subseq_Cons2_iff)
      from Cons.IH[OF this] show ?thesis by (simp add: list_emb_Cons)
    qed
  qed
qed

lemma subseq_sorted_wrt:
  "subseq xs ys \<Longrightarrow> sorted_wrt P ys \<Longrightarrow> sorted_wrt P xs"
proof (induction ys arbitrary: xs)
  case Nil
  then have "xs = []" by (cases xs) auto
  then show ?case by simp
next
  case (Cons y ys)
  show ?case
  proof (cases xs)
    case Nil
    then show ?thesis by simp
  next
    case (Cons x xs')
    show ?thesis
    proof (cases "x = y")
      case True
      with Cons Cons.prems(1) have s: "subseq xs' ys" by (simp add: subseq_Cons2_iff)
      then have "set xs' \<subseteq> set ys" by (auto elim: list_emb_set)
      with Cons.IH[OF s] Cons.prems(2) True Cons show ?thesis by auto
    next
      case False
      with Cons Cons.prems(1) have "subseq xs ys" by (simp add: subseq_Cons2_iff)
      from Cons.IH[OF this] Cons.prems(2) show ?thesis by simp
    qed
  qed
qed

lemma headers_numbers: "headers ls = map Some (headerNumbers ls)"
proof (induction ls)
  case Nil
  show ?case by (simp add: headers_def headerNumbers_def somes_def)
next
  case (Cons l ls)
  show ?case
  proof (cases "raceMatch l")
    case None
    with Cons show ?thesis by (simp add: headers_def headerNumbers_def somes_def)
  next
    case (Some v)
    from raceMatch_number[OF this] obtain k where "v = Some k" by blast
    with Some Cons show ?thesis by (simp add: headers_def headerNumbers_def somes_def)
  qed
qed

lemma extractRaces_horses:
  assumes Q: "\<And>line h. extractHorseFromLine line = Some h \<Longrightarrow> Q h"
  shows "list_all (\<lambda>r. list_all Q (race_horses r)) (extractRaces day doc)"
proof -
  let ?inv = "\<lambda>st. list_all (\<lambda>r. list_all Q (race_horses r)) (races st) \<and> list_all Q (currentHorses st)"
  have fl: "list_all (\<lambda>r. list_all Q (race_horses r)) (flush st)" if "?inv st" for st
    using that by (auto simp: flush_def split: option.splits)
  have st: "?inv (step day line window st)" if "?inv st" for line window st
    using that fl[OF that] Q by (auto simp: step_def split: option.splits)
  have sc: "?inv (scan day ls st)" if "?inv st" for ls st
    using that by (induction ls arbitrary: st) (simp_all add: st)
  show ?thesis
    unfolding extractRaces_scan by (intro fl sc) simp
qed

section \<open>The end-to-end example\<close>

lemma e2e_races:
  "extractRaces day e2e_text =
     [\<lparr>race_id = ''race-1'', race_number = Some 1, race_track = ''Unknown'',
       race_date = day, race_distance = Some ''6 Furlongs'',
       race_surface = Some Dirt, race_purse = None,
       race_horses = [midnightRun, solarFlare]\<rparr>]"
  by code_simp

lemma e2e_track: "extractTrack e2e_text = Some ''SANTA ANITA''"
  by code_simp

lemma e2e_date_match:
  "map_option (\<lambda>m. group m 1) (exec (hd datePatterns) e2e_text) = Some (Some ''March 15, 2024'')"
  by code_simp

lemma e2e_date:
  assumes "isoDate cal ''March 15, 2024'' = Some d"
  shows "extractDate cal e2e_text = Some d"
proof -
  from e2e_date_match obtain m where "exec (hd datePatterns) e2e_text = Some m"
    "group m 1 = Some ''March 15, 2024''"
    by auto
  with assms show ?thesis
    by (simp add: extractDate_def datePatterns_def)
qed

text \<open>
  C1, as amended. On the seven-line text of the example, with a calendar in which
  \<open>March 15, 2024\<close> is the day \<open>2024-03-15\<close>, the race card has track \<open>SANTA ANITA\<close> and date
  \<open>2024-03-15\<close> and exactly one race: number 1, distance \<open>6 Furlongs\<close>, surface dirt, with the
  horses 1 MIDNIGHT RUN (J. Smith, 5-1) and 2 SOLAR FLARE (A. Lee, 3-1) in this order. Race 2
  is not in the output. The track and the date are fields of the card; the race itself
  carries the track \<open>Unknown\<close> and the day of the run.
\<close>

theorem e2e_example:
  assumes "isoDate cal ''March 15, 2024'' = Some ''2024-03-15''"
  shows "card_track (parseRaceData cal e2e_text) = ''SANTA ANITA''
       \<and> card_date (parseRaceData cal e2e_text) = ''2024-03-15''
       \<and> map race_number (card_races (parseRaceData cal e2e_text)) = [Some 1]
       \<and> map race_id (card_races (parseRaceData cal e2e_text)) = [''race-1'']
       \<and> map race_track (card_races (parseRaceData cal e2e_text)) = [''Unknown'']
       \<and> map race_date (card_races (parseRaceData cal e2e_text)) = [today cal]
       \<and> map race_distance (card_races (parseRaceData cal e2e_text)) = [Some ''6 Furlongs'']
       \<and> map race_surface (card_races (parseRaceData cal e2e_text)) = [Some Dirt]
       \<and> map race_horses (card_races (parseRaceData cal e2e_text)) = [[midnightRun, solarFlare]]"
  using e2e_date[OF assms] by (simp add: parseRaceData_def e2e_races e2e_track)

theorem e2e_example_witness:
  "isoDate e2e_calendar ''March 15, 2024'' = Some ''2024-03-15''
   \<and> card_track (parseRaceData e2e_calendar e2e_text) = ''SANTA ANITA''
   \<and> card_date (parseRaceData e2e_calendar e2e_text) = ''2024-03-15''
   \<and> map race_number (card_races (parseRaceData e2e_calendar e2e_text)) = [Some 1]
   \<and> map race_track (card_races (parseRaceData e2e_calendar e2e_text)) = [''Unknown'']
   \<and> map race_date (card_races (parseRaceData e2e_calendar e2e_text)) = [''2024-06-01'']
   \<and> map race_horses (card_races (parseRaceData e2e_calendar e2e_text)) = [[midnightRun, solarFlare]]"
proof -
  have h: "isoDate e2e_calendar ''March 15, 2024'' = Some ''2024-03-15''"
    by (simp add: e2e_calendar_def)
  have t: "today e2e_calendar = ''2024-06-01''"
    by (simp add: e2e_calendar_def)
  from e2e_example[OF h] h t show ?thesis by simp
qed

text \<open>
  C1, as stated, fails on the example: the race does not carry the track \<open>SANTA ANITA\<close>, with
  a run on another day it does not carry the date \<open>2024-03-15\<close>, and its purse is not 40000
  (the first digit group of the condition line is \<open>6\<close>).
\<close>

theorem e2e_counterexample:
  "map race_track (card_races (parseRaceData e2e_calendar e2e_text)) \<noteq> [''SANTA ANITA'']
   \<and> map race_date (card_races (parseRaceData e2e_calendar e2e_text)) \<noteq> [''2024-03-15'']
   \<and> map race_purse (card_races (parseRaceData e2e_calendar e2e_text)) \<noteq> [Some 40000]"
  by (simp add: parseRaceData_def e2e_races e2e_calendar_def)

section \<open>The purse extractor\<close>

text \<open>
  C2, as amended. For every line whose digit group denotes a safe integer, and for every
  line without such a group, the purse extractor returns the amount of the digit group of
  the line when that amount is greater than 1000, and nothing otherwise: when the line has
  no digit group, when the group has separators only, and when the amount is at most 1000.
  (An amount that is not a safe integer is rounded by the source and is left out.)
\<close>

theorem extractPurse_threshold:
  assumes "case purseAmount_spec line of Some amount \<Rightarrow> safeInteger amount | None \<Rightarrow> True"
  shows "extractPurse line = (case purseAmount_spec line of
                                Some amount \<Rightarrow> if amount > 1000 then Some amount else None
                              | None \<Rightarrow> None)"
proof (cases "digitGroup_spec line")
  case None
  with exec_from_purse[of "length line" line] have "exec pursePattern line = None"
    by (simp add: exec_def)
  with None show ?thesis by (simp add: extractPurse_def purseAmount_spec_def)
next
  case (Some g)
  with exec_from_purse[of "length line" line] obtain m where m: "exec pursePattern line = Some m"
    "group m 1 = Some g"
    by (auto simp: exec_def group_def)
  let ?ds = "filter (\<lambda>x. x \<noteq> CHR '','') g"
  from digitGroup_spec_chars[OF Some] have d: "list_all isDigit ?ds"
    by (auto simp: list_all_iff isPurseChar_def)
  have p: "parseInt ?ds = (if ?ds = [] then None else Some (decimal ?ds))"
  proof (cases "?ds = []")
    case True
    then show ?thesis by (simp add: parseInt_def)
  next
    case False
    from parseInt_digits[OF False d] False show ?thesis by simp
  qed
  from m Some p show ?thesis
    by (simp add: extractPurse_def purseAmount_spec_def Let_def)
qed

theorem extractPurse_threshold_witness:
  "purseAmount_spec ''Purse $40,000'' = Some 40000
   \<and> safeInteger 40000
   \<and> extractPurse ''Purse $40,000'' = Some 40000
   \<and> purseAmount_spec ''6 Furlongs Dirt Purse $40,000'' = Some 6
   \<and> safeInteger 6
   \<and> extractPurse ''6 Furlongs Dirt Purse $40,000'' = None"
proof -
  have a: "purseAmount_spec ''Purse $40,000'' = Some 40000"
    by code_simp
  have b: "purseAmount_spec ''6 Furlongs Dirt Purse $40,000'' = Some 6"
    by code_simp
  have sa: "safeInteger 40000" and sb: "safeInteger 6"
    by (simp_all add: safeInteger_def)
  have ha: "case purseAmount_spec ''Purse $40,000'' of Some amount \<Rightarrow> safeInteger amount | None \<Rightarrow> True"
    using a sa by simp
  have hb: "case purseAmount_spec ''6 Furlongs Dirt Purse $40,000'' of
              Some amount \<Rightarrow> safeInteger amount | None \<Rightarrow> True"
    using b sb by simp
  from extractPurse_threshold[OF ha] extractPurse_threshold[OF hb] a b sa sb
  show ?thesis by simp
qed

text \<open>
  C2, as stated, fails at the amount 1000: the line \<open>$1,000\<close> parses to 1000 and nothing is
  returned.
\<close>

theorem extractPurse_counterexample:
  "purseAmount_spec ''$1,000'' = Some 1000 \<and> extractPurse ''$1,000'' = None"
  by code_simp

section \<open>Order of the races\<close>

lemma unordered_numbers: "raceNumbers (extractRaces day unorderedText) = [2, 1, 2]"
  by code_simp

lemma ordered_headers: "headerNumbers (textLines orderedText) = [1, 3]"
  by code_simp

lemma ordered_numbers: "raceNumbers (extractRaces day orderedText) = [1, 3]"
  by code_simp

text \<open>
  C3, as amended. For every text whose race-boundary lines carry safe integers, no race
  number of the output is \<open>NaN\<close>, and the race numbers of the output, in their order, are a
  subsequence of the race numbers of the race-boundary lines in document order: races are
  listed in their order of appearance and never renumbered. When the numbers of the
  race-boundary lines are strictly increasing, the numbers of the output are strictly
  increasing and unique. (Numbers that are not safe integers are rounded by the source,
  which can make two of them equal, and are left out.)
\<close>

theorem race_order_preserved:
  assumes "list_all safeInteger (headerNumbers (textLines doc))"
  shows "map race_number (extractRaces day doc) = map Some (raceNumbers (extractRaces day doc))
   \<and> subseq (raceNumbers (extractRaces day doc)) (headerNumbers (textLines doc))
   \<and> (sorted_wrt (<) (headerNumbers (textLines doc)) \<longrightarrow>
        sorted_wrt (<) (raceNumbers (extractRaces day doc)) \<and> distinct (raceNumbers (extractRaces day doc)))"
proof -
  have "subseq (map race_number (extractRaces day doc)) (map Some (headerNumbers (textLines doc)))"
    using extractRaces_headers[of day doc] by (simp add: headers_numbers)
  from subseq_map_Some[OF this]
  have a: "map race_number (extractRaces day doc) = map Some (raceNumbers (extractRaces day doc))"
    and b: "subseq (raceNumbers (extractRaces day doc)) (headerNumbers (textLines doc))"
    by (simp_all add: raceNumbers_def)
  have "sorted_wrt (<) (raceNumbers (extractRaces day doc)) \<and> distinct (raceNumbers (extractRaces day doc))"
    if "sorted_wrt (<) (headerNumbers (textLines doc))"
    using subseq_sorted_wrt[OF b that] by (simp add: strict_sorted_iff)
  with a b show ?thesis by blast
qed

theorem race_order_preserved_witness:
  "list_all safeInteger (headerNumbers (textLines orderedText))
   \<and> sorted_wrt (<) (headerNumbers (textLines orderedText))
   \<and> raceNumbers (extractRaces ''2024-06-01'' orderedText) = [1, 3]
   \<and> map race_number (extractRaces ''2024-06-01'' orderedText) = [Some 1, Some 3]
   \<and> subseq (raceNumbers (extractRaces ''2024-06-01'' orderedText)) (headerNumbers (textLines orderedText))
   \<and> sorted_wrt (<) (raceNumbers (extractRaces ''2024-06-01'' orderedText))
   \<and> distinct (raceNumbers (extractRaces ''2024-06-01'' orderedText))"
proof -
  have s: "sorted_wrt (<) (headerNumbers (textLines orderedText))"
    by (simp add: ordered_headers)
  have b: "list_all safeInteger (headerNumbers (textLines orderedText))"
    by (simp add: ordered_headers safeInteger_def)
  from race_order_preserved[OF b, of "''2024-06-01''"] s b ordered_numbers show ?thesis
    by simp
qed

text \<open>
  C3, as stated, fails on a text whose race-boundary lines carry the numbers 2, 1, 2: the
  output has the races 2, 1, 2, neither increasing nor unique.
\<close>

theorem race_order_counterexample:
  "raceNumbers (extractRaces ''2024-06-01'' unorderedText) = [2, 1, 2]
   \<and> \<not> sorted_wrt (<) (raceNumbers (extractRaces ''2024-06-01'' unorderedText))
   \<and> \<not> distinct (raceNumbers (extractRaces ''2024-06-01'' unorderedText))"
  by (simp add: unordered_numbers)

section \<open>Races without horses\<close>

lemma quiet_sample: "quiet ''Purse $5,000''"
  by code_simp

lemma emptyRace_numbers: "map race_number (extractRaces day emptyRaceText) = [Some 2]"
  by code_simp

lemma raceMatch_samples:
  "raceMatch ''RACE 1'' = Some (Some 1)" "raceMatch ''RACE 2'' = Some (Some 2)"
  by code_simp+

text \<open>
  C4. For every text, every race of the output has at least one horse. When a race-boundary
  line is followed, with only lines between that are neither race-boundary lines nor horse
  entries, by another race-boundary line, no race is emitted for the first of the two: the
  races emitted are those that were complete before it. At the end of the input an open
  race without horses is discarded.
\<close>

theorem races_have_horses:
  "(\<forall>r \<in> set (extractRaces day doc). race_horses r \<noteq> [])
   \<and> (raceMatch line1 = Some n1 \<and> list_all quiet mid \<and> raceMatch line2 = Some n2 \<longrightarrow>
        races (loop day (line1 # mid @ [line2]) 0 st) = flush st)
   \<and> flush (st\<lparr>currentHorses := []\<rparr>) = races st"
proof -
  have "\<forall>r \<in> set (extractRaces day doc). race_horses r \<noteq> []"
    using extractRaces_manned [of day doc] by (simp add: manned_def list_all_iff)
  moreover have "flush (st\<lparr>currentHorses := []\<rparr>) = races st"
    by (simp add: flush_def split: option.splits)
  ultimately show ?thesis using empty_race_elided by blast
qed

theorem races_have_horses_witness:
  "raceMatch ''RACE 1'' = Some (Some 1) \<and> quiet ''Purse $5,000'' \<and> raceMatch ''RACE 2'' = Some (Some 2)
   \<and> races (loop ''2024-06-01'' [''RACE 1'', ''Purse $5,000'', ''RACE 2''] 0 idle) = []
   \<and> map race_number (extractRaces ''2024-06-01'' emptyRaceText) = [Some 2]
   \<and> list_all (\<lambda>r. race_horses r \<noteq> []) (extractRaces ''2024-06-01'' emptyRaceText)"
  using races_have_horses[of "''2024-06-01''" emptyRaceText "''RACE 1''" "Some 1" "[''Purse $5,000'']" "''RACE 2''" "Some 2" idle]
        raceMatch_samples emptyRace_numbers quiet_sample
  by (simp add: list_all_iff flush_def)

section \<open>Lines before the first race\<close>

lemma orphan_facts:
  "textLines orphanText = [''3. ORPHAN (J. Doe) 2-1'']"
  "raceMatch ''3. ORPHAN (J. Doe) 2-1'' = None"
  "map_option horse_name (extractHorseFromLine ''3. ORPHAN (J. Doe) 2-1'') = Some ''ORPHAN''"
  by code_simp+

text \<open>
  C5. When no line of \<open>pre\<close> is a race-boundary line, nothing of \<open>pre\<close> reaches the output:
  \<open>pre\<close> alone gives no race, and \<open>pre\<close> followed by more lines gives what those lines alone
  give, whether or not lines of \<open>pre\<close> have the shape of a horse entry.
\<close>

theorem orphan_lines_dropped:
  assumes "\<forall>line \<in> set (textLines pre). raceMatch line = None"
  shows "extractRaces day pre = []
         \<and> extractRaces day (pre @ CHR 0x0A # rest) = extractRaces day rest"
proof -
  have "scan day (textLines pre @ ls) idle = scan day ls idle" for ls
    using assms by (intro scan_orphans) simp_all
  from this [of "[]"] this [of "textLines rest"] show ?thesis
    by (simp add: extractRaces_scan textLines_append flush_def)
qed

theorem orphan_lines_dropped_witness:
  "raceMatch ''3. ORPHAN (J. Doe) 2-1'' = None
   \<and> map_option horse_name (extractHorseFromLine ''3. ORPHAN (J. Doe) 2-1'') = Some ''ORPHAN''
   \<and> extractRaces ''2024-06-01'' orphanText = []
   \<and> extractRaces ''2024-06-01'' (orphanText @ CHR 0x0A # bigNumberText) = extractRaces ''2024-06-01'' bigNumberText"
  using orphan_lines_dropped[of orphanText "''2024-06-01''" bigNumberText] orphan_facts
  by simp

section \<open>The document parser\<close>

text \<open>
  C6. When the file is read and the text layer is extracted, \<open>processPDF\<close> returns a result
  with \<open>success\<close> true, the extracted text, the race card that \<open>parseRaceData\<close> builds from that
  text, and confidence 0.9 if the text is longer than 100 code units, 0.5 otherwise. For a
  file name whose extension is \<open>pdf\<close> this is the result of \<open>processFile\<close>.
\<close>

theorem processPDF_confidence:
  assumes "readFile ext filePath = Inr dataBuffer" and "pdfParse ext dataBuffer = Inr t"
  shows "processPDF ext filePath =
           Inr \<lparr>ocr_success = True, ocr_text = t,
                 ocr_confidence = (if length t > 100 then 0.9 else 0.5),
                 ocr_extractedData = Some (parseRaceData (calendarOf ext) t), ocr_errors = None\<rparr>
         \<and> (fileExtensionOf fileName = ''pdf'' \<longrightarrow>
              processFile ext filePath fileName = processPDF ext filePath)"
  using assms by (auto simp: processPDF_def processFile_def dispatch_def bind_def Let_def)

theorem processPDF_confidence_witness:
  "processPDF sampleExternals ''/tmp/card.pdf'' =
     Inr \<lparr>ocr_success = True, ocr_text = replicate 150 CHR ''x'', ocr_confidence = 0.9,
           ocr_extractedData = Some (parseRaceData (calendarOf sampleExternals) (replicate 150 CHR ''x'')),
           ocr_errors = None\<rparr>
   \<and> fileExtensionOf ''Card.PDF'' = ''pdf''
   \<and> processFile sampleExternals ''/tmp/card.pdf'' ''Card.PDF'' = processPDF sampleExternals ''/tmp/card.pdf''"
proof -
  have r: "readFile sampleExternals ''/tmp/card.pdf'' = Inr ''%PDF''"
    by (simp add: sampleExternals_def)
  have p: "pdfParse sampleExternals ''%PDF'' = Inr (replicate 150 CHR ''x'')"
    by (simp add: sampleExternals_def)
  have x: "fileExtensionOf ''Card.PDF'' = ''pdf''"
    by code_simp
  from processPDF_confidence [OF r p, of "''Card.PDF''"] x show ?thesis
    by simp
qed

text \<open>
  C7. \<open>processFile\<close> always returns a result and never throws. Whatever is thrown inside its
  \<open>try\<close> block, by the reading of the file, by the text-layer extraction or on the image path,
  becomes the result with \<open>success\<close> false, empty text, confidence 0 and the message as the
  only error (\<open>Unknown error\<close> when the thrown value is not an \<open>Error\<close>). A file name whose
  extension, the lower-cased text after its last dot, is none of \<open>pdf\<close>, \<open>jpg\<close>, \<open>jpeg\<close>, \<open>png\<close>
  gives this result with the unsupported-type message whatever the externals are.
\<close>

theorem processFile_never_throws:
  "(\<exists>r. processFile ext filePath fileName = Inr r)
   \<and> (dispatch ext filePath fileName = Inl e \<longrightarrow>
        processFile ext filePath fileName =
          Inr \<lparr>ocr_success = False, ocr_text = [], ocr_confidence = 0, ocr_extractedData = None,
                ocr_errors = Some [case e of Error message \<Rightarrow> message | Other \<Rightarrow> ''Unknown error'']\<rparr>)
   \<and> (fileExtensionOf fileName = ''pdf'' \<and> readFile ext filePath = Inl e \<longrightarrow>
        processFile ext filePath fileName = Inr (failure e))
   \<and> (fileExtensionOf fileName = ''pdf'' \<and> readFile ext filePath = Inr dataBuffer
        \<and> pdfParse ext dataBuffer = Inl e \<longrightarrow>
        processFile ext filePath fileName = Inr (failure e))
   \<and> (fileExtensionOf fileName \<in> {''jpg'', ''jpeg'', ''png''} \<and> processImage ext filePath = Inl e \<longrightarrow>
        processFile ext filePath fileName = Inr (failure e))
   \<and> (fileExtensionOf fileName \<notin> {''pdf'', ''jpg'', ''jpeg'', ''png''} \<longrightarrow>
        processFile ext filePath fileName =
          Inr \<lparr>ocr_success = False, ocr_text = [], ocr_confidence = 0, ocr_extractedData = None,
                ocr_errors = Some [''Unsupported file type: '' @ fileExtensionOf fileName]\<rparr>)"
  by (auto simp: processFile_def dispatch_def processPDF_def bind_def failure_def Let_def
           split: sum.splits)

theorem processFile_never_throws_witness:
  "fileExtensionOf ''notes.TXT'' \<notin> {''pdf'', ''jpg'', ''jpeg'', ''png''}
   \<and> processFile sampleExternals ''/tmp/notes.txt'' ''notes.TXT'' =
        Inr \<lparr>ocr_success = False, ocr_text = [], ocr_confidence = 0, ocr_extractedData = None,
              ocr_errors = Some [''Unsupported file type: txt'']\<rparr>
   \<and> fileExtensionOf ''Card.PDF'' = ''pdf''
   \<and> readFile sampleExternals ''/tmp/gone.pdf'' = Inl (Error ''ENOENT'')
   \<and> processFile sampleExternals ''/tmp/gone.pdf'' ''Card.PDF'' =
        Inr \<lparr>ocr_success = False, ocr_text = [], ocr_confidence = 0, ocr_extractedData = None,
              ocr_errors = Some [''ENOENT'']\<rparr>"
proof -
  have x: "fileExtensionOf ''notes.TXT'' = ''txt''"
    by code_simp
  have y: "fileExtensionOf ''Card.PDF'' = ''pdf''"
    by code_simp
  have r: "readFile sampleExternals ''/tmp/gone.pdf'' = Inl (Error ''ENOENT'')"
    by (simp add: sampleExternals_def)
  from processFile_never_throws [of sampleExternals "''/tmp/notes.txt''" "''notes.TXT''" "Error ''ENOENT''" "[]"]
       processFile_never_throws [of sampleExternals "''/tmp/gone.pdf''" "''Card.PDF''" "Error ''ENOENT''" "[]"]
       x y r
  show ?thesis
    by (simp add: failure_def)
qed

section \<open>Defaults of a horse entry\<close>

lemma seabiscuit_facts:
  "extractHorseFromLine ''7 SEABISCUIT'' = Some seabiscuit7"
  "\<not> hasParenGroup ''7 SEABISCUIT''"
  "\<not> hasOddsToken ''7 SEABISCUIT''"
  by code_simp+

text \<open>
  C8. For every line that the horse-entry extractor matches and that contains no
  parenthesized group and no odds token, the horse has the jockey \<open>Unknown\<close>, the trainer
  \<open>Unknown\<close>, the weight 120 and no odds.
\<close>

theorem horse_defaults:
  assumes "extractHorseFromLine line = Some h"
    and "\<not> hasParenGroup line" and "\<not> hasOddsToken line"
  shows "horse_jockey h = ''Unknown'' \<and> horse_trainer h = ''Unknown'' \<and> horse_weight h = 120
         \<and> horse_odds h = None"
proof -
  from assms(1) obtain m where m: "exec horsePattern line = Some m"
    "horse_jockey h = orUnknown (group m 3)" "horse_trainer h = ''Unknown''" "horse_weight h = 120"
    "horse_odds h = map_option trim (group m 4)"
    by (auto simp: extractHorseFromLine_def split: option.splits)
  from horse_groups34_tokens[OF m(1)] assms(2,3) have "group m 3 = None" "group m 4 = None" by simp_all
  with m show ?thesis by (simp add: orUnknown_def)
qed

theorem horse_defaults_witness:
  "extractHorseFromLine ''7 SEABISCUIT'' = Some seabiscuit7
   \<and> \<not> hasParenGroup ''7 SEABISCUIT'' \<and> \<not> hasOddsToken ''7 SEABISCUIT''
   \<and> horse_jockey seabiscuit7 = ''Unknown'' \<and> horse_trainer seabiscuit7 = ''Unknown''
   \<and> horse_weight seabiscuit7 = 120 \<and> horse_odds seabiscuit7 = None"
  using horse_defaults[OF seabiscuit_facts] seabiscuit_facts by simp

section \<open>Horse numbers\<close>

lemma bigNumber_races:
  "concat (map race_horses (extractRaces day bigNumberText)) = [bigRed]"
  by code_simp

lemma bigRed_line: "extractHorseFromLine ''99. BIG RED'' = Some bigRed"
  by code_simp

text \<open>
  C9, as amended. Every horse of the output, and every horse the extractor builds from a
  line, has a number that is an integer between 0 and 99 inclusive.
\<close>

theorem horse_number_range:
  "(\<forall>r \<in> set (extractRaces day doc). \<forall>h \<in> set (race_horses r).
      \<exists>v. horse_number h = Some v \<and> 0 \<le> v \<and> v \<le> 99)
   \<and> (extractHorseFromLine line = Some h \<longrightarrow> (\<exists>v. horse_number h = Some v \<and> 0 \<le> v \<and> v \<le> 99))"
  using extractRaces_horses[of "\<lambda>h. \<exists>v. horse_number h = Some v \<and> 0 \<le> v \<and> v \<le> 99" day doc]
        extractHorseFromLine_number
  by (auto simp: list_all_iff)

theorem horse_number_range_witness:
  "extractHorseFromLine ''99. BIG RED'' = Some bigRed
   \<and> horse_number bigRed = Some 99
   \<and> concat (map race_horses (extractRaces ''2024-06-01'' bigNumberText)) = [bigRed]
   \<and> list_all (\<lambda>r. list_all (\<lambda>h. \<exists>v. horse_number h = Some v \<and> 0 \<le> v \<and> v \<le> 99) (race_horses r))
        (extractRaces ''2024-06-01'' bigNumberText)"
  using horse_number_range[of "''2024-06-01''" bigNumberText "''99. BIG RED''" bigRed]
        bigRed_line bigNumber_races
  by (simp add: list_all_iff bigRed_def)

text \<open>
  C9, as stated, fails on the horse line \<open>99. BIG RED\<close>: the horse of the output has the
  number 99.
\<close>

theorem horse_number_counterexample:
  "map horse_number (concat (map race_horses (extractRaces ''2024-06-01'' bigNumberText))) = [Some 99]
   \<and> \<not> (99::int) \<le> 20"
  by (simp add: bigNumber_races bigRed_def)

section \<open>The race-boundary test is a substring match\<close>

text \<open>
  C10. The race-boundary pattern is not anchored. The line \<open>TERRACE 2\<close>, which only contains
  \<open>RACE 2\<close>, matches with race number 2; on it the assembler opens a new race 2, and with a
  horse line after it that race is in the output. The ordinal suffix is optional: the line
  \<open>7 RACE\<close> opens race 7 in the same way.
\<close>

theorem raceHeader_unanchored:
  "raceMatch ''TERRACE 2'' = Some (Some 2)
   \<and> currentRace (step day ''TERRACE 2'' [] \<lparr>races = [], currentRace = None, currentHorses = []\<rparr>)
       = Some (newRace day (Some 2))
   \<and> map race_number (extractRaces day (''TERRACE 2'' @ [CHR 0x0A] @ ''1. A'')) = [Some 2]
   \<and> raceMatch ''7 RACE'' = Some (Some 7)
   \<and> map race_number (extractRaces day (''7 RACE'' @ [CHR 0x0A] @ ''1. A'')) = [Some 7]"
proof -
  have a: "raceMatch ''TERRACE 2'' = Some (Some 2)"
    by code_simp
  have b: "raceMatch ''7 RACE'' = Some (Some 7)"
    by code_simp
  have c: "map race_number (extractRaces day (''TERRACE 2'' @ [CHR 0x0A] @ ''1. A'')) = [Some 2]"
    by code_simp
  have d: "map race_number (extractRaces day (''7 RACE'' @ [CHR 0x0A] @ ''1. A'')) = [Some 7]"
    by code_simp
  have e: "currentRace (step day ''TERRACE 2'' [] \<lparr>races = [], currentRace = None, currentHorses = []\<rparr>)
       = Some (newRace day (Some 2))"
    by (simp add: step_def a)
  from a b c d e show ?thesis by simp
qed

end
